theory Spec2Isabelle
  imports Main "HOL-Library.Multiset"
begin

section \<open>JavaScript values used by the CRM board\<close>

subsection \<open>Numbers\<close>

text \<open>
  A stage's \<open>order\<close> is a JavaScript number. Every value the component ever stores
  there is an integer literal, an array index, or \<open>Math.max(...) + 1\<close>; the last one is
  \<open>-Infinity\<close> when the registry is empty (\<open>Math.max()\<close> of no arguments). Finite values
  are modelled as unbounded integers (exact below \<open>2^53\<close>), and \<open>-Infinity\<close> as its own
  constructor.
\<close>

datatype jsnum = NegInf | Fin int

text \<open>
  The comparator \<open>(a, b) => a.order - b.order\<close> orders \<open>-Infinity\<close> below every
  finite value; \<open>-Infinity - -Infinity\<close> is \<open>NaN\<close>, which \<open>sort\<close> reads as \<open>+0\<close>, so two such
  entries compare equal.
\<close>

instantiation jsnum :: linorder
begin

fun less_eq_jsnum :: "jsnum \<Rightarrow> jsnum \<Rightarrow> bool" where
  "less_eq_jsnum NegInf y = True"
| "less_eq_jsnum (Fin a) NegInf = False"
| "less_eq_jsnum (Fin a) (Fin b) = (a \<le> b)"

definition less_jsnum :: "jsnum \<Rightarrow> jsnum \<Rightarrow> bool" where
  "less_jsnum x y = (x \<le> y \<and> \<not> y \<le> x)"

instance
proof
  fix x y z :: jsnum
  show "(x < y) = (x \<le> y \<and> \<not> y \<le> x)"
    by (simp add: less_jsnum_def)
  show "x \<le> x"
    by (cases x) simp_all
  show "x \<le> y \<Longrightarrow> y \<le> z \<Longrightarrow> x \<le> z"
    by (cases x; cases y; cases z) simp_all
  show "x \<le> y \<Longrightarrow> y \<le> x \<Longrightarrow> x = y"
    by (cases x; cases y) simp_all
  show "x \<le> y \<or> y \<le> x"
    by (cases x; cases y) auto
qed

end

text \<open>\<open>Math.max(...xs)\<close>: \<open>-Infinity\<close> for no arguments.\<close>

definition math_max :: "jsnum list \<Rightarrow> jsnum" where
  "math_max xs = foldr max xs NegInf"

text \<open>\<open>x + 1\<close>: \<open>-Infinity + 1\<close> is \<open>-Infinity\<close>.\<close>

fun plus_one :: "jsnum \<Rightarrow> jsnum" where
  "plus_one NegInf = NegInf"
| "plus_one (Fin n) = Fin (n + 1)"

subsection \<open>Strings\<close>

text \<open>
  Strings are lists of code points below 256 (the Latin-1 part of UTF-16, which covers
  the Portuguese titles of the board). On that range \<open>\s\<close> and \<open>trim\<close> see tab, line feed,
  vertical tab, form feed, carriage return, space and the no-break space, and
  \<open>toLowerCase\<close> maps \<open>A..Z\<close> and the accented capitals \<open>0xC0..0xDE\<close> (but not the
  multiplication sign \<open>0xD7\<close>) to the code point 32 above.
\<close>

definition is_space :: "char \<Rightarrow> bool" where
  "is_space c = ((of_char c :: nat) \<in> {9, 10, 11, 12, 13, 32, 160})"

definition lower_char :: "char \<Rightarrow> char" where
  "lower_char c =
     (let n = (of_char c :: nat) in
      if (65 \<le> n \<and> n \<le> 90) \<or> (192 \<le> n \<and> n \<le> 222 \<and> n \<noteq> 215)
      then char_of (n + 32) else c)"

definition toLowerCase :: "string \<Rightarrow> string" where
  "toLowerCase s = map lower_char s"

definition trim :: "string \<Rightarrow> string" where
  "trim s = rev (dropWhile is_space (rev (dropWhile is_space s)))"

text \<open>
  \<open>s.replace(/\s+/g, '_')\<close>: scanning from the left, the greedy \<open>\s+\<close> takes a white-space
  character together with all white space that follows it, and the match becomes one
  underscore.
\<close>

function replace_ws :: "string \<Rightarrow> string" where
  "replace_ws [] = []"
| "replace_ws (c # cs) =
     (if is_space c then CHR ''_'' # replace_ws (dropWhile is_space cs)
      else c # replace_ws cs)"
  by pat_completeness auto
termination
  by (relation "measure length") (auto simp: less_Suc_eq_le length_dropWhile_le)

subsection \<open>Objects\<close>

text \<open>
  A \<open>Record<string, V>\<close> is an association list in the order \<open>Object.entries\<close> lists it:
  keys that are array indices (canonical decimal numerals below \<open>2^32 - 1\<close>) first, in
  ascending numeric order, then every other key in the order of its creation. Assigning an
  existing key keeps its place; \<open>delete\<close> removes the entry.
\<close>

type_synonym 'v js_object = "(string \<times> 'v) list"

definition is_digit :: "char \<Rightarrow> bool" where
  "is_digit c = (48 \<le> (of_char c :: nat) \<and> (of_char c :: nat) \<le> 57)"

definition parse_decimal :: "string \<Rightarrow> int" where
  "parse_decimal s = fold (\<lambda>c n. 10 * n + ((of_char c :: int) - 48)) s 0"

definition array_index :: "string \<Rightarrow> int option" where
  "array_index s =
     (if s \<noteq> [] \<and> list_all is_digit s \<and> (length s = 1 \<or> hd s \<noteq> CHR ''0'')
         \<and> parse_decimal s < 4294967295
      then Some (parse_decimal s) else None)"

fun insert_index :: "int \<Rightarrow> string \<Rightarrow> 'v \<Rightarrow> 'v js_object \<Rightarrow> 'v js_object" where
  "insert_index n k v [] = [(k, v)]"
| "insert_index n k v ((k', v') # m) =
     (case array_index k' of
        Some n' \<Rightarrow> if n' < n then (k', v') # insert_index n k v m else (k, v) # (k', v') # m
      | None \<Rightarrow> (k, v) # (k', v') # m)"

definition obj_get :: "'v js_object \<Rightarrow> string \<Rightarrow> 'v option" where
  "obj_get m k = map_of m k"

definition obj_set :: "string \<Rightarrow> 'v \<Rightarrow> 'v js_object \<Rightarrow> 'v js_object" where
  "obj_set k v m =
     (case obj_get m k of
        Some _ \<Rightarrow> map (\<lambda>(k', v'). if k' = k then (k', v) else (k', v')) m
      | None \<Rightarrow>
         (case array_index k of
            None \<Rightarrow> m @ [(k, v)]
          | Some n \<Rightarrow> insert_index n k v m))"

definition obj_delete :: "string \<Rightarrow> 'v js_object \<Rightarrow> 'v js_object" where
  "obj_delete k m = filter (\<lambda>(k', v'). k' \<noteq> k) m"

definition obj_keys :: "'v js_object \<Rightarrow> string list" where
  "obj_keys m = map fst m"

definition obj_values :: "'v js_object \<Rightarrow> 'v list" where
  "obj_values m = map snd m"

section \<open>Data model\<close>

text \<open>
  \<open>TrialRegistration\<close> of \<open>lib/supabase.ts\<close>; \<open>id\<close>, \<open>status\<close> and \<open>created_at\<close> are
  optional there (and \<open>status\<close> is a nullable column), so they are options here. A \<open>Lead\<close>
  is the same object at run time: \<open>id: lead.id!\<close> asserts nothing when the code runs.
\<close>

record TrialRegistration =
  lead_id :: "string option"
  full_name :: string
  phone :: string
  age :: int
  class_day :: string
  class_time :: string
  class_name :: string
  specific_date :: string
  status :: "string option"
  created_at :: "string option"

type_synonym Lead = TrialRegistration

record FunnelStage =
  title :: string
  color :: string
  editable :: "bool option"
  order :: jsnum

definition DEFAULT_FUNNEL_STAGES :: "FunnelStage js_object" where
  "DEFAULT_FUNNEL_STAGES =
   [(''pending'', \<lparr>title = ''Novos Leads'', color = ''bg-blue-500'', editable = None, order = Fin 0\<rparr>),
    (''contacted'', \<lparr>title = ''Contatados'', color = ''bg-yellow-500'', editable = None, order = Fin 1\<rparr>),
    (''confirmed'', \<lparr>title = ''Confirmados'', color = ''bg-green-500'', editable = None, order = Fin 2\<rparr>),
    (''completed'', \<lparr>title = ''Compareceram'', color = ''bg-purple-500'', editable = None, order = Fin 3\<rparr>),
    (''enrolled'', \<lparr>title = ''Matriculados'', color = ''bg-emerald-500'', editable = None, order = Fin 4\<rparr>),
    (''no_show'', \<lparr>title = ''N'' @ [char_of (227 :: nat)] @ ''o Compareceram'', color = ''bg-red-500'',
                  editable = None, order = Fin 5\<rparr>),
    (''cancelled'', \<lparr>title = ''Cancelados'', color = ''bg-gray-500'', editable = None, order = Fin 6\<rparr>)]"

text \<open>
  The component's state (the \<open>useState\<close> cells the handlers write), and \<open>remote_log\<close>, the
  calls of \<open>updateTrialRegistrationStatus\<close> issued so far, each with its lead identifier and
  status.
\<close>

record crm_state =
  leads :: "Lead list"
  isLoading :: bool
  error :: string
  funnelStages :: "FunnelStage js_object"
  newLaneName :: string
  newLaneColor :: string
  showNewLaneModal :: bool
  isDraggingLane :: bool
  remote_log :: "(string \<times> string) list"

definition initial_state :: crm_state where
  "initial_state =
     \<lparr>leads = [], isLoading = True, error = [], funnelStages = DEFAULT_FUNNEL_STAGES,
      newLaneName = [], newLaneColor = ''bg-indigo-500'', showNewLaneModal = False,
      isDraggingLane = False, remote_log = []\<rparr>"

datatype js_error = TypeError | RemoteError

record DraggableLocation =
  droppableId :: string
  index :: nat

record DropResult =
  draggableId :: string
  drop_type :: string
  source :: DraggableLocation
  destination :: "DraggableLocation option"

section \<open>Operations of the board (\<open>CRM.tsx\<close>, latest version)\<close>

text \<open>
  \<open>updateTrialRegistrationStatus\<close> and \<open>getTrialRegistrations\<close> talk to the remote store.
  The handlers take their outcome as a parameter: \<open>remote leadId status\<close> is \<open>True\<close> when
  the awaited update resolves and \<open>False\<close> when it rejects; \<open>fetched\<close> is the rows returned or
  the error thrown. Each handler runs from the state it is given to the state it leaves
  (\<open>console.error\<close> is not part of the state).
\<close>

definition loadLeads :: "js_error + TrialRegistration list \<Rightarrow> crm_state \<Rightarrow> crm_state" where
  "loadLeads fetched st =
     (case fetched of
        Inr data \<Rightarrow>
          st\<lparr>leads := map (\<lambda>lead. lead\<lparr>lead_id := lead_id lead,
                                        status := Some (case status lead of
                                                          None \<Rightarrow> ''pending''
                                                        | Some s \<Rightarrow> if s = [] then ''pending'' else s)\<rparr>)
                          data,
             isLoading := False\<rparr>
      | Inl err \<Rightarrow> st\<lparr>error := ''Erro ao carregar leads'', isLoading := False\<rparr>)"

definition getLeadsByStatus :: "crm_state \<Rightarrow> string \<Rightarrow> Lead list" where
  "getLeadsByStatus st s = filter (\<lambda>lead. status lead = Some s) (leads st)"

definition getSortedStages :: "crm_state \<Rightarrow> (string \<times> FunnelStage) list" where
  "getSortedStages st = sort_key (\<lambda>(k, stage). order stage) (funnelStages st)"

text \<open>
  \<open>updatedStages[k] = { ...updatedStages[k], order: v }\<close>. Both callers take \<open>k\<close> from the
  entries of the object they update, so the key is always there.
\<close>

definition set_order :: "string \<Rightarrow> jsnum \<Rightarrow> FunnelStage js_object \<Rightarrow> FunnelStage js_object" where
  "set_order k v m =
     (case obj_get m k of
        Some stage \<Rightarrow> obj_set k (stage\<lparr>order := v\<rparr>) m
      | None \<Rightarrow> m)"

text \<open>\<open>xs.splice(i, 1)\<close> and \<open>xs.splice(j, 0, x)\<close> for indices that are not negative.\<close>

definition splice_remove :: "nat \<Rightarrow> 'a list \<Rightarrow> 'a list" where
  "splice_remove i xs = take i xs @ drop (Suc i) xs"

definition splice_insert :: "nat \<Rightarrow> 'a \<Rightarrow> 'a list \<Rightarrow> 'a list" where
  "splice_insert j x xs = take j xs @ x # drop j xs"

text \<open>\<open>stageEntries.forEach(([stageId], index) => ...)\<close> from index \<open>i\<close> on.\<close>

fun renumber :: "nat \<Rightarrow> (string \<times> FunnelStage) list \<Rightarrow> FunnelStage js_object \<Rightarrow> FunnelStage js_object" where
  "renumber i [] m = m"
| "renumber i ((stageId, stage) # es) m = renumber (Suc i) es (set_order stageId (Fin (int i)) m)"

definition patch_status :: "string \<Rightarrow> string \<Rightarrow> Lead list \<Rightarrow> Lead list" where
  "patch_status leadId newStatus prevLeads =
     map (\<lambda>lead. if lead_id lead = Some leadId then lead\<lparr>status := Some newStatus\<rparr> else lead) prevLeads"

text \<open>
  The \<open>try\<close> block shared by \<open>handleDragEnd\<close> and \<open>moveLeadToStatus\<close>: await the remote
  update, then patch the cache; the \<open>catch\<close> sets the banner message.
\<close>

definition update_then_patch :: "(string \<Rightarrow> string \<Rightarrow> bool) \<Rightarrow> string \<Rightarrow> string \<Rightarrow> crm_state \<Rightarrow> crm_state" where
  "update_then_patch remote leadId newStatus st =
     (let st1 = st\<lparr>remote_log := remote_log st @ [(leadId, newStatus)]\<rparr> in
      if remote leadId newStatus
      then st1\<lparr>leads := patch_status leadId newStatus (leads st1)\<rparr>
      else st1\<lparr>error := ''Erro ao atualizar status do lead''\<rparr>)"

text \<open>
  The lane branch of \<open>handleDragEnd\<close>. When \<open>source.index\<close> is past the end, \<open>splice\<close>
  removes nothing, \<open>removed\<close> is \<open>undefined\<close>, and destructuring it in \<open>forEach\<close> throws
  before \<open>setFunnelStages\<close> is reached.
\<close>

definition reorder_lanes :: "nat \<Rightarrow> nat \<Rightarrow> crm_state \<Rightarrow> js_error + crm_state" where
  "reorder_lanes src dst st =
     (let stageEntries = getSortedStages st in
      if src < length stageEntries then
        (let removed = stageEntries ! src;
             stageEntries' = splice_insert dst removed (splice_remove src stageEntries);
             updatedStages = renumber 0 stageEntries' (funnelStages st)
         in Inr (st\<lparr>funnelStages := updatedStages, isDraggingLane := False\<rparr>))
      else Inl TypeError)"

definition handleDragEnd :: "(string \<Rightarrow> string \<Rightarrow> bool) \<Rightarrow> DropResult \<Rightarrow> crm_state \<Rightarrow> js_error + crm_state" where
  "handleDragEnd remote result st =
     (case destination result of
        None \<Rightarrow> Inr st
      | Some dest \<Rightarrow>
          if drop_type result = ''LANE'' then reorder_lanes (index (source result)) (index dest) st
          else if droppableId (source result) = droppableId dest \<and> index (source result) = index dest
          then Inr st
          else Inr (update_then_patch remote (draggableId result) (droppableId dest) st))"

definition handleCreateNewLane :: "crm_state \<Rightarrow> crm_state" where
  "handleCreateNewLane st =
     (if trim (newLaneName st) = [] then st
      else
        (let laneId = replace_ws (toLowerCase (newLaneName st));
             maxOrder = math_max (map order (obj_values (funnelStages st)))
         in st\<lparr>funnelStages :=
                  obj_set laneId
                    \<lparr>title = newLaneName st, color = newLaneColor st, editable = Some True,
                     order = plus_one maxOrder\<rparr>
                    (funnelStages st),
                newLaneName := [],
                newLaneColor := ''bg-indigo-500'',
                showNewLaneModal := False\<rparr>))"

definition handleDeleteLane :: "string \<Rightarrow> crm_state \<Rightarrow> crm_state" where
  "handleDeleteLane laneId st =
     (if (case obj_get (funnelStages st) laneId of
            None \<Rightarrow> True
          | Some stage \<Rightarrow> editable stage \<noteq> Some True)
      then st
      else st\<lparr>leads := map (\<lambda>lead. if status lead = Some laneId
                                    then lead\<lparr>status := Some ''pending''\<rparr> else lead) (leads st),
              funnelStages := obj_delete laneId (funnelStages st)\<rparr>)"

datatype direction = Left | Right

text \<open>\<open>xs.findIndex(p)\<close>, with \<open>None\<close> for \<open>-1\<close>.\<close>

fun findIndex :: "('a \<Rightarrow> bool) \<Rightarrow> 'a list \<Rightarrow> nat option" where
  "findIndex p [] = None"
| "findIndex p (x # xs) = (if p x then Some 0 else map_option Suc (findIndex p xs))"

definition moveLane :: "string \<Rightarrow> direction \<Rightarrow> crm_state \<Rightarrow> crm_state" where
  "moveLane laneId dir st =
     (let sortedStages = getSortedStages st in
      case findIndex (\<lambda>(k, stage). k = laneId) sortedStages of
        None \<Rightarrow> st
      | Some currentIndex \<Rightarrow>
          (let newIndex = (if dir = Left then int currentIndex - 1 else int currentIndex + 1) in
           if newIndex < 0 \<or> newIndex \<ge> int (length sortedStages) then st
           else
             (let updatedStages = funnelStages st;
                  targetLaneId = fst (sortedStages ! nat newIndex)
              in case (obj_get updatedStages laneId, obj_get updatedStages targetLaneId) of
                   (Some cur, Some tgt) \<Rightarrow>
                     (let currentOrder = order cur;
                          targetOrder = order tgt;
                          updatedStages1 = set_order laneId targetOrder updatedStages;
                          updatedStages2 = set_order targetLaneId currentOrder updatedStages1
                      in st\<lparr>funnelStages := updatedStages2\<rparr>)
                 | _ \<Rightarrow> st)))"

definition moveLeadToStatus :: "(string \<Rightarrow> string \<Rightarrow> bool) \<Rightarrow> string \<Rightarrow> string \<Rightarrow> crm_state \<Rightarrow> crm_state" where
  "moveLeadToStatus remote leadId newStatus st = update_then_patch remote leadId newStatus st"

section \<open>The drag handler of the two earlier versions of \<open>CRM.tsx\<close>\<close>

text \<open>
  The version with lanes but without the arrow buttons: a lead dropped in its own lane is
  spliced in a filtered copy of the cache, which is then dropped, whatever the position.
\<close>

definition handleDragEnd_lanes :: "(string \<Rightarrow> string \<Rightarrow> bool) \<Rightarrow> DropResult \<Rightarrow> crm_state \<Rightarrow> js_error + crm_state" where
  "handleDragEnd_lanes remote result st =
     (case destination result of
        None \<Rightarrow> Inr st
      | Some dest \<Rightarrow>
          if drop_type result = ''LANE'' then reorder_lanes (index (source result)) (index dest) st
          else if droppableId (source result) = droppableId dest
          then (let laneLeads = getLeadsByStatus st (droppableId (source result));
                    laneLeads' = (if index (source result) < length laneLeads
                                  then splice_insert (index dest) (Some (laneLeads ! index (source result)))
                                         (splice_remove (index (source result)) (map Some laneLeads))
                                  else splice_insert (index dest) None (map Some laneLeads))
                in Inr st)
          else Inr (update_then_patch remote (draggableId result) (droppableId dest) st))"

text \<open>The first version, with the fixed stages: any drop in the same lane returns at once.\<close>

definition handleDragEnd_fixed :: "(string \<Rightarrow> string \<Rightarrow> bool) \<Rightarrow> DropResult \<Rightarrow> crm_state \<Rightarrow> js_error + crm_state" where
  "handleDragEnd_fixed remote result st =
     (case destination result of
        None \<Rightarrow> Inr st
      | Some dest \<Rightarrow>
          if droppableId (source result) = droppableId dest then Inr st
          else Inr (update_then_patch remote (draggableId result) (droppableId dest) st))"

section \<open>Sample inputs\<close>

text \<open>
  The two example rows of \<open>supabase_schema.sql\<close> as the store returns them (identifiers and
  timestamps are generated by the store; the second row is given a null status), a lead drop
  as the drag library reports it, and the board after loading the two rows.
\<close>

definition sample_rows :: "TrialRegistration list" where
  "sample_rows =
    [\<lparr>lead_id = Some ''a1'', full_name = ''Jo'' @ [char_of (227 :: nat)] @ ''o Silva'',
      phone = ''(11) 99999-1234'', age = 8, class_day = ''Tuesday'',
      class_time = ''6:00 PM to 6:50 PM'', class_name = ''KIDS GI 6 - 9'',
      specific_date = ''15/01 (6pm-6:50pm)'', status = Some ''pending'',
      created_at = Some ''2025-01-10''\<rparr>,
     \<lparr>lead_id = Some ''b2'', full_name = ''Maria Santos'',
      phone = ''(11) 99999-5678'', age = 25, class_day = ''Monday'',
      class_time = ''7:00 PM to 8:30 PM'', class_name = ''ADULT GI'',
      specific_date = ''14/01 (7pm-8:30pm)'', status = None,
      created_at = Some ''2025-01-09''\<rparr>]"

definition lead_drop :: "string \<Rightarrow> string \<Rightarrow> nat \<Rightarrow> string \<Rightarrow> nat \<Rightarrow> DropResult" where
  "lead_drop l s i d j =
     \<lparr>draggableId = l, drop_type = ''LEAD'',
      source = \<lparr>droppableId = s, index = i\<rparr>,
      destination = Some \<lparr>droppableId = d, index = j\<rparr>\<rparr>"

definition loaded_state :: crm_state where
  "loaded_state = loadLeads (Inr sample_rows) initial_state"

text \<open>
  Creating a lane from the modal: the user types a name, picks a colour and confirms. The
  board \<open>vip_state\<close> has a lane \<open>VIP\<close> that holds the second sample lead.
\<close>

definition create_lane :: "string \<Rightarrow> string \<Rightarrow> crm_state \<Rightarrow> crm_state" where
  "create_lane name colour st =
     handleCreateNewLane
       (st\<lparr>showNewLaneModal := True, newLaneName := name, newLaneColor := colour\<rparr>)"

definition vip_state :: crm_state where
  "vip_state =
     moveLeadToStatus (\<lambda>l s. True) ''b2'' ''vip'' (create_lane ''VIP'' ''bg-pink-500'' loaded_state)"

section \<open>Properties stated by the specification\<close>

text \<open>
  A cache \<open>new\<close> that differs from \<open>old\<close> only in the status of the leads whose identifier is
  \<open>L\<close>, which is \<open>S\<close>: same length, same positions, every other field kept.
\<close>

definition only_status_patched :: "string \<Rightarrow> string \<Rightarrow> Lead list \<Rightarrow> Lead list \<Rightarrow> bool" where
  "only_status_patched L S old new =
     list_all2 (\<lambda>before after.
                  after = (if lead_id before = Some L then before\<lparr>status := Some S\<rparr> else before))
               old new"

text \<open>The status a row has after loading: \<open>pending\<close> when it was missing or empty.\<close>

definition normalized_status :: "string option \<Rightarrow> string" where
  "normalized_status s = (if s = None \<or> s = Some [] then ''pending'' else the s)"

definition is_editable :: "FunnelStage js_object \<Rightarrow> string \<Rightarrow> bool" where
  "is_editable stages laneId =
     (case obj_get stages laneId of None \<Rightarrow> False | Some stage \<Rightarrow> editable stage = Some True)"

text \<open>
  The lane next to \<open>laneId\<close> on the board, on the side \<open>dir\<close>: its neighbour in the sorted
  list of stages, when \<open>laneId\<close> is shown and is not the first lane (for \<open>Left\<close>) or the last
  one (for \<open>Right\<close>).
\<close>

definition neighbour_lane :: "string \<Rightarrow> direction \<Rightarrow> crm_state \<Rightarrow> string option" where
  "neighbour_lane laneId dir st =
     (let shown = map fst (getSortedStages st) in
      case findIndex (\<lambda>k. k = laneId) shown of
        None \<Rightarrow> None
      | Some i \<Rightarrow>
          (case dir of
             Left \<Rightarrow> if 0 < i then Some (shown ! (i - 1)) else None
           | Right \<Rightarrow> if Suc i < length shown then Some (shown ! Suc i) else None))"

text \<open>
  The slug of a title in the words of the specification: the title in lower case, cut into
  its maximal runs of white space and of other characters, with every run of white space
  replaced by one underscore.
\<close>

function runs :: "('a \<Rightarrow> bool) \<Rightarrow> 'a list \<Rightarrow> 'a list list" where
  "runs P [] = []"
| "runs P (x # xs) =
     (x # takeWhile (\<lambda>y. P y = P x) xs) # runs P (dropWhile (\<lambda>y. P y = P x) xs)"
  by pat_completeness auto
termination
  by (relation "measure (\<lambda>(P, xs). length xs)") (auto simp: less_Suc_eq_le length_dropWhile_le)

definition slugify :: "string \<Rightarrow> string" where
  "slugify t =
     concat (map (\<lambda>run. if list_all is_space run then ''_'' else run)
               (runs is_space (toLowerCase t)))"

text \<open>
  The board after each default stage has been overwritten by a lane of the same identifier
  and then deleted.
\<close>

definition emptied_board :: crm_state where
  "emptied_board =
     fold (\<lambda>k st. handleDeleteLane k (create_lane k ''bg-indigo-500'' st))
       (obj_keys DEFAULT_FUNNEL_STAGES) initial_state"

text \<open>
  A lane drop as the drag library reports it, and a board whose order values have a gap:
  the lanes \<open>a\<close> and \<open>b\<close> are created, then \<open>a\<close> is deleted.
\<close>

definition lane_drop :: "string \<Rightarrow> nat \<Rightarrow> nat \<Rightarrow> DropResult" where
  "lane_drop k i j =
     \<lparr>draggableId = ''lane-'' @ k, drop_type = ''LANE'',
      source = \<lparr>droppableId = ''lanes'', index = i\<rparr>,
      destination = Some \<lparr>droppableId = ''lanes'', index = j\<rparr>\<rparr>"

definition gap_state :: crm_state where
  "gap_state =
     handleDeleteLane ''a''
       (create_lane ''b'' ''bg-pink-500'' (create_lane ''a'' ''bg-indigo-500'' initial_state))"

section \<open>Lead status changes\<close>

lemma only_status_patched_patch: "only_status_patched L S ls (patch_status L S ls)"
  by (simp add: only_status_patched_def patch_status_def list_all2_map2 list_all2_same)

lemma handleDragEnd_lead_drop:
  assumes "destination result = Some dest" and "drop_type result \<noteq> ''LANE''"
    and "\<not> (droppableId (source result) = droppableId dest \<and> index (source result) = index dest)"
  shows "handleDragEnd remote result st
           = Inr (update_then_patch remote (draggableId result) (droppableId dest) st)"
  using assms by (auto simp add: handleDragEnd_def)

lemma leads_update_then_patch:
  "leads (update_then_patch remote L S st)
     = (if remote L S then patch_status L S (leads st) else leads st)"
  by (simp add: update_then_patch_def Let_def)

lemma update_then_patch_failure:
  "\<not> remote L S \<Longrightarrow>
   update_then_patch remote L S st
     = st\<lparr>error := ''Erro ao atualizar status do lead'',
          remote_log := remote_log st @ [(L, S)]\<rparr>"
  by (simp add: update_then_patch_def Let_def)

text \<open>
  C7. A successful status change of lead \<open>L\<close> to status \<open>S\<close>, by the dropdown
  (\<open>moveLeadToStatus\<close>) or by a drop that reaches the remote update, leaves a cache of the
  same length and order in which only the status of the lead with identifier \<open>L\<close> has
  changed, to \<open>S\<close>; every other lead and every other field is as before.
\<close>

theorem status_change_frame:
  "(remote L S \<longrightarrow>
      only_status_patched L S (leads st) (leads (moveLeadToStatus remote L S st)))
   \<and> (destination result = Some dest \<and> drop_type result \<noteq> ''LANE''
        \<and> \<not> (droppableId (source result) = droppableId dest \<and> index (source result) = index dest)
        \<and> remote (draggableId result) (droppableId dest) \<longrightarrow>
      (\<exists>st'. handleDragEnd remote result st = Inr st'
           \<and> only_status_patched (draggableId result) (droppableId dest) (leads st) (leads st')))"
  by (simp add: moveLeadToStatus_def handleDragEnd_lead_drop leads_update_then_patch
        only_status_patched_patch)

theorem status_change_frame_witness:
  "only_status_patched ''b2'' ''contacted'' (leads loaded_state)
     (leads (moveLeadToStatus (\<lambda>l s. True) ''b2'' ''contacted'' loaded_state))
   \<and> map status (leads (moveLeadToStatus (\<lambda>l s. True) ''b2'' ''contacted'' loaded_state))
       = [Some ''pending'', Some ''contacted'']
   \<and> (\<exists>st'. handleDragEnd (\<lambda>l s. True) (lead_drop ''b2'' ''pending'' 1 ''contacted'' 0) loaded_state
              = Inr st'
          \<and> only_status_patched ''b2'' ''contacted'' (leads loaded_state) (leads st')
          \<and> map status (leads st') = [Some ''pending'', Some ''contacted''])"
  using status_change_frame [of "\<lambda>l s. True" "''b2''" "''contacted''" loaded_state
      "lead_drop ''b2'' ''pending'' 1 ''contacted'' 0" "\<lparr>droppableId = ''contacted'', index = 0\<rparr>"]
  by (simp add: lead_drop_def loaded_state_def loadLeads_def sample_rows_def initial_state_def
        moveLeadToStatus_def update_then_patch_def patch_status_def handleDragEnd_def Let_def)

text \<open>
  C6. When the remote update fails, a dropdown move and a drop on another stage set the
  error message and leave the lead cache as it was: the call is issued, the patch is not
  applied.
\<close>

theorem remote_failure_keeps_cache:
  "(\<not> remote L S \<longrightarrow>
      leads (moveLeadToStatus remote L S st) = leads st
      \<and> error (moveLeadToStatus remote L S st) = ''Erro ao atualizar status do lead''
      \<and> remote_log (moveLeadToStatus remote L S st) = remote_log st @ [(L, S)])
   \<and> (destination result = Some dest \<and> drop_type result \<noteq> ''LANE''
        \<and> droppableId (source result) \<noteq> droppableId dest
        \<and> \<not> remote (draggableId result) (droppableId dest) \<longrightarrow>
      (\<exists>st'. handleDragEnd remote result st = Inr st'
           \<and> leads st' = leads st
           \<and> error st' = ''Erro ao atualizar status do lead''
           \<and> remote_log st' = remote_log st @ [(draggableId result, droppableId dest)]))"
  by (simp add: moveLeadToStatus_def handleDragEnd_lead_drop update_then_patch_failure)

theorem remote_failure_keeps_cache_witness:
  "leads (moveLeadToStatus (\<lambda>l s. False) ''b2'' ''contacted'' loaded_state) = leads loaded_state
   \<and> error (moveLeadToStatus (\<lambda>l s. False) ''b2'' ''contacted'' loaded_state)
       = ''Erro ao atualizar status do lead''
   \<and> (\<exists>st'. handleDragEnd (\<lambda>l s. False) (lead_drop ''b2'' ''pending'' 1 ''contacted'' 0) loaded_state
              = Inr st'
          \<and> map status (leads st') = [Some ''pending'', Some ''pending'']
          \<and> error st' = ''Erro ao atualizar status do lead''
          \<and> remote_log st' = [(''b2'', ''contacted'')])"
  using remote_failure_keeps_cache [of "\<lambda>l s. False" "''b2''" "''contacted''" loaded_state
      "lead_drop ''b2'' ''pending'' 1 ''contacted'' 0" "\<lparr>droppableId = ''contacted'', index = 0\<rparr>"]
  by (simp add: lead_drop_def loaded_state_def loadLeads_def sample_rows_def initial_state_def
        moveLeadToStatus_def update_then_patch_def patch_status_def handleDragEnd_def Let_def)

text \<open>
  C5. A lead dropped on the stage it came from, at the index it came from, changes nothing
  in any version of the handler: the state returned is the state given, so no remote update
  is issued and neither the lead cache nor the stage registry changes.
\<close>

theorem same_position_drop_noop:
  assumes "destination result = Some dest"
    and "drop_type result \<noteq> ''LANE''"
    and "droppableId dest = droppableId (source result)"
    and "index dest = index (source result)"
  shows "handleDragEnd remote result st = Inr st
       \<and> handleDragEnd_lanes remote result st = Inr st
       \<and> handleDragEnd_fixed remote result st = Inr st"
  using assms by (simp add: handleDragEnd_def handleDragEnd_lanes_def handleDragEnd_fixed_def Let_def)

theorem same_position_drop_noop_witness:
  "handleDragEnd (\<lambda>l s. True) (lead_drop ''b2'' ''pending'' 1 ''pending'' 1) loaded_state
      = Inr loaded_state
   \<and> handleDragEnd_lanes (\<lambda>l s. True) (lead_drop ''b2'' ''pending'' 1 ''pending'' 1) loaded_state
      = Inr loaded_state
   \<and> handleDragEnd_fixed (\<lambda>l s. True) (lead_drop ''b2'' ''pending'' 1 ''pending'' 1) loaded_state
      = Inr loaded_state
   \<and> remote_log loaded_state = []"
proof -
  have "destination (lead_drop ''b2'' ''pending'' 1 ''pending'' 1)
          = Some \<lparr>droppableId = ''pending'', index = 1\<rparr>"
    and "drop_type (lead_drop ''b2'' ''pending'' 1 ''pending'' 1) \<noteq> ''LANE''"
    and "droppableId \<lparr>droppableId = ''pending'', index = 1\<rparr>
          = droppableId (source (lead_drop ''b2'' ''pending'' 1 ''pending'' 1))"
    and "index \<lparr>droppableId = ''pending'', index = 1\<rparr>
          = index (source (lead_drop ''b2'' ''pending'' 1 ''pending'' 1))"
    by (simp_all add: lead_drop_def)
  from same_position_drop_noop [OF this]
  show ?thesis
    by (simp add: loaded_state_def loadLeads_def initial_state_def)
qed

section \<open>Loading\<close>

text \<open>
  C10. After a successful load every lead of the cache has a status that is defined and not
  empty; a row whose status is missing or empty gets \<open>pending\<close>, any other row keeps its
  status, and no other field of a row changes. The cache has the rows in the order returned.
\<close>

theorem loadLeads_normalizes_status:
  "(\<forall>lead \<in> set (leads (loadLeads (Inr data) st)). \<exists>s. status lead = Some s \<and> s \<noteq> [])
   \<and> list_all2 (\<lambda>row lead. lead = row\<lparr>status := Some (normalized_status (status row))\<rparr>)
        data (leads (loadLeads (Inr data) st))"
proof -
  have eq: "leads (loadLeads (Inr data) st)
              = map (\<lambda>row. row\<lparr>status := Some (normalized_status (status row))\<rparr>) data"
    by (auto simp add: loadLeads_def normalized_status_def split: option.splits)
  have ne: "normalized_status s \<noteq> []" for s
    by (cases s) (simp_all add: normalized_status_def)
  show ?thesis
    unfolding eq by (auto simp add: list_all2_map2 list_all2_same ne)
qed

theorem loadLeads_normalizes_status_witness:
  "map status (leads (loadLeads (Inr sample_rows) initial_state)) = [Some ''pending'', Some ''pending'']
   \<and> map status sample_rows = [Some ''pending'', None]
   \<and> list_all (\<lambda>lead. \<exists>s. status lead = Some s \<and> s \<noteq> [])
        (leads (loadLeads (Inr sample_rows) initial_state))
   \<and> list_all2 (\<lambda>row lead. lead = row\<lparr>status := Some (normalized_status (status row))\<rparr>)
        sample_rows (leads (loadLeads (Inr sample_rows) initial_state))"
  using loadLeads_normalizes_status [of sample_rows initial_state]
  by (simp add: loadLeads_def sample_rows_def normalized_status_def)

section \<open>Facts about objects\<close>

lemma insert_index_split:
  "\<exists>ys zs. m = ys @ zs \<and> insert_index n k v m = ys @ (k, v) # zs"
proof (induction m)
  case Nil
  then show ?case by simp
next
  case (Cons e m)
  then obtain ys zs where split: "m = ys @ zs" "insert_index n k v m = ys @ (k, v) # zs"
    by blast
  obtain k' v' where e: "e = (k', v')"
    by (cases e)
  show ?case
  proof (cases "\<exists>n'. array_index k' = Some n' \<and> n' < n")
    case True
    then have "insert_index n k v (e # m) = (e # ys) @ (k, v) # zs"
      using split e by auto
    moreover have "e # m = (e # ys) @ zs"
      using split by simp
    ultimately show ?thesis by blast
  next
    case False
    then have "insert_index n k v (e # m) = [] @ (k, v) # (e # m)"
      using e by (auto split: option.splits)
    then show ?thesis by blast
  qed
qed

lemma obj_get_insert_index:
  assumes "obj_get m k = None"
  shows "obj_get (insert_index n k v m) k' = (if k' = k then Some v else obj_get m k')"
proof -
  obtain ys zs where split: "m = ys @ zs" "insert_index n k v m = ys @ (k, v) # zs"
    using insert_index_split [of m n k v] by auto
  from assms split have "map_of ys k = None"
    by (auto simp add: obj_get_def map_add_def split: option.splits)
  then show ?thesis
    using split by (auto simp add: obj_get_def map_add_def split: option.splits)
qed

lemma obj_keys_insert_index:
  "set (obj_keys (insert_index n k v m)) = insert k (set (obj_keys m))"
proof -
  obtain ys zs where "m = ys @ zs" "insert_index n k v m = ys @ (k, v) # zs"
    using insert_index_split [of m n k v] by auto
  then show ?thesis
    by (auto simp add: obj_keys_def)
qed

lemma distinct_insert_index:
  assumes "distinct (obj_keys m)" and "k \<notin> set (obj_keys m)"
  shows "distinct (obj_keys (insert_index n k v m))"
proof -
  obtain ys zs where "m = ys @ zs" "insert_index n k v m = ys @ (k, v) # zs"
    using insert_index_split [of m n k v] by auto
  with assms show ?thesis
    by (auto simp add: obj_keys_def)
qed

lemma obj_get_None_iff: "obj_get m k = None \<longleftrightarrow> k \<notin> set (obj_keys m)"
  by (simp add: obj_get_def obj_keys_def map_of_eq_None_iff)

lemma map_of_overwrite:
  "map_of (map (\<lambda>(k', v'). if k' = k then (k', v) else (k', v')) m) k'
     = (if k' = k then map_option (\<lambda>_. v) (map_of m k) else map_of m k')"
  by (induction m) auto

lemma obj_keys_overwrite:
  "map fst (map (\<lambda>(k', v'). if k' = k then (k', v) else (k', v')) m) = map fst m"
  by (induction m) auto

lemma obj_get_obj_set:
  "obj_get (obj_set k v m) k' = (if k' = k then Some v else obj_get m k')"
proof (cases "obj_get m k")
  case None
  then show ?thesis
    using obj_get_insert_index [of m k _ v k']
    by (auto simp add: obj_set_def obj_get_def map_add_def split: option.splits)
next
  case (Some old)
  then show ?thesis
    by (simp add: obj_set_def obj_get_def map_of_overwrite)
qed

lemma obj_keys_obj_set_existing:
  "obj_get m k = Some old \<Longrightarrow> obj_keys (obj_set k v m) = obj_keys m"
  by (auto simp add: obj_set_def obj_keys_def)

lemma set_obj_keys_obj_set:
  "set (obj_keys (obj_set k v m)) = insert k (set (obj_keys m))"
proof (cases "obj_get m k")
  case None
  then show ?thesis
    using obj_keys_insert_index [of _ k v m]
    by (auto simp add: obj_set_def obj_keys_def split: option.splits)
next
  case (Some old)
  then have "k \<in> set (obj_keys m)"
    using obj_get_None_iff [of m k] by auto
  with Some show ?thesis
    by (auto simp add: obj_keys_obj_set_existing)
qed

lemma distinct_obj_set:
  assumes "distinct (obj_keys m)"
  shows "distinct (obj_keys (obj_set k v m))"
proof (cases "obj_get m k")
  case None
  then have "k \<notin> set (obj_keys m)"
    by (simp add: obj_get_None_iff)
  with assms None show ?thesis
    using distinct_insert_index [of m k _ v]
    by (auto simp add: obj_set_def obj_keys_def split: option.splits)
next
  case (Some old)
  with assms show ?thesis
    by (simp add: obj_keys_obj_set_existing)
qed

lemma obj_get_obj_delete:
  "obj_get (obj_delete k m) k' = (if k' = k then None else obj_get m k')"
  by (induction m) (auto simp add: obj_get_def obj_delete_def)

lemma obj_keys_obj_delete: "obj_keys (obj_delete k m) = removeAll k (obj_keys m)"
  by (induction m) (auto simp add: obj_keys_def obj_delete_def)

section \<open>Deleting a stage\<close>

text \<open>
  C2. Deleting a stage whose editable flag is true sets the status of every lead of that
  stage to \<open>pending\<close> (no other lead and no other field changes), removes the identifier
  from the registry and leaves every other stage as it was; deleting a stage whose flag is
  not true, or an identifier that is not in the registry, returns the state unchanged.
\<close>

theorem handleDeleteLane_effect:
  "(is_editable (funnelStages st) laneId \<longrightarrow>
      list_all2 (\<lambda>before after.
                   after = (if status before = Some laneId
                            then before\<lparr>status := Some ''pending''\<rparr> else before))
         (leads st) (leads (handleDeleteLane laneId st))
      \<and> obj_get (funnelStages (handleDeleteLane laneId st)) laneId = None
      \<and> (\<forall>k. k \<noteq> laneId \<longrightarrow>
             obj_get (funnelStages (handleDeleteLane laneId st)) k = obj_get (funnelStages st) k)
      \<and> obj_keys (funnelStages (handleDeleteLane laneId st))
          = removeAll laneId (obj_keys (funnelStages st)))
   \<and> (\<not> is_editable (funnelStages st) laneId \<longrightarrow> handleDeleteLane laneId st = st)"
proof (cases "is_editable (funnelStages st) laneId")
  case True
  then have "handleDeleteLane laneId st
               = st\<lparr>leads := map (\<lambda>lead. if status lead = Some laneId
                                            then lead\<lparr>status := Some ''pending''\<rparr> else lead)
                                  (leads st),
                     funnelStages := obj_delete laneId (funnelStages st)\<rparr>"
    by (simp add: handleDeleteLane_def is_editable_def split: option.splits)
  with True show ?thesis
    by (simp add: obj_get_obj_delete obj_keys_obj_delete list_all2_map2 list_all2_same)
next
  case False
  then have "handleDeleteLane laneId st = st"
    by (simp add: handleDeleteLane_def is_editable_def split: option.splits)
  with False show ?thesis by simp
qed

theorem handleDeleteLane_effect_witness:
  "is_editable (funnelStages vip_state) ''vip''
   \<and> map status (leads vip_state) = [Some ''pending'', Some ''vip'']
   \<and> map status (leads (handleDeleteLane ''vip'' vip_state)) = [Some ''pending'', Some ''pending'']
   \<and> obj_get (funnelStages (handleDeleteLane ''vip'' vip_state)) ''vip'' = None
   \<and> obj_keys (funnelStages (handleDeleteLane ''vip'' vip_state)) = obj_keys DEFAULT_FUNNEL_STAGES
   \<and> \<not> is_editable (funnelStages loaded_state) ''pending''
   \<and> handleDeleteLane ''pending'' loaded_state = loaded_state"
proof -
  have a: "is_editable (funnelStages vip_state) ''vip''"
    by code_simp
  have b: "\<not> is_editable (funnelStages loaded_state) ''pending''"
    by code_simp
  have c: "map status (leads vip_state) = [Some ''pending'', Some ''vip'']"
    by code_simp
  have d: "map status (leads (handleDeleteLane ''vip'' vip_state))
             = [Some ''pending'', Some ''pending'']"
    by code_simp
  have e: "removeAll ''vip'' (obj_keys (funnelStages vip_state)) = obj_keys DEFAULT_FUNNEL_STAGES"
    by code_simp
  from handleDeleteLane_effect [of vip_state "''vip''"] a
  have f: "obj_get (funnelStages (handleDeleteLane ''vip'' vip_state)) ''vip'' = None"
    "obj_keys (funnelStages (handleDeleteLane ''vip'' vip_state))
       = removeAll ''vip'' (obj_keys (funnelStages vip_state))"
    by simp_all
  from handleDeleteLane_effect [of loaded_state "''pending''"] b
  have g: "handleDeleteLane ''pending'' loaded_state = loaded_state"
    by simp
  show ?thesis
    using a b c d e f g by simp
qed

section \<open>Creating a stage\<close>

lemma concat_runs: "concat (runs P xs) = xs"
  by (induction P xs rule: runs.induct) simp_all

lemma runs_homogeneous:
  "r \<in> set (runs P xs) \<Longrightarrow> r \<noteq> [] \<and> (\<forall>y \<in> set r. P y = P (hd r))"
proof (induction P xs rule: runs.induct)
  case (1 P)
  then show ?case by simp
next
  case (2 P x xs)
  show ?case
  proof (cases "r = x # takeWhile (\<lambda>y. P y = P x) xs")
    case True
    then have ne: "r \<noteq> []" and hd: "hd r = x"
      by simp_all
    have "\<forall>y \<in> set r. P y = P x"
    proof
      fix y
      assume "y \<in> set r"
      with True have "y = x \<or> y \<in> set (takeWhile (\<lambda>y. P y = P x) xs)"
        by simp
      then show "P y = P x"
        using set_takeWhileD [of y "\<lambda>y. P y = P x" xs] by blast
    qed
    then show ?thesis
      unfolding hd using ne by blast
  next
    case False
    with "2.prems" have "r \<in> set (runs P (dropWhile (\<lambda>y. P y = P x) xs))"
      by simp
    then show ?thesis by (rule "2.IH")
  qed
qed

lemma runs_maximal:
  "runs P xs = r # r' # rs \<Longrightarrow> P (hd r') \<noteq> P (hd r)"
proof (induction P xs arbitrary: r r' rs rule: runs.induct)
  case (1 P)
  then show ?case by simp
next
  case (2 P x xs)
  let ?rest = "dropWhile (\<lambda>y. P y = P x) xs"
  from "2.prems" have r: "r = x # takeWhile (\<lambda>y. P y = P x) xs" and rest: "runs P ?rest = r' # rs"
    by simp_all
  from rest obtain z zs where z: "?rest = z # zs"
    by (cases ?rest) auto
  then have "\<not> (P z = P x)"
    using hd_dropWhile [of "\<lambda>y. P y = P x" xs] by auto
  moreover from rest z have "hd r' = z"
    by auto
  ultimately show ?case
    using r by simp
qed

lemma replace_ws_skip_word:
  "replace_ws cs
     = takeWhile (\<lambda>y. \<not> is_space y) cs @ replace_ws (dropWhile (\<lambda>y. \<not> is_space y) cs)"
  by (induction cs) simp_all

lemma replace_ws_runs:
  "replace_ws s = concat (map (\<lambda>run. if list_all is_space run then ''_'' else run) (runs is_space s))"
proof (induction "is_space" s rule: runs.induct)
  case 1
  then show ?case by simp
next
  case (2 c cs)
  show ?case
  proof (cases "is_space c")
    case True
    then have same: "(\<lambda>y. is_space y = is_space c) = is_space"
      by auto
    have "list_all is_space (c # takeWhile is_space cs)"
      using True by (auto simp add: list_all_iff dest: set_takeWhileD)
    with True 2 show ?thesis
      by (simp add: same)
  next
    case False
    then have same: "(\<lambda>y. is_space y = is_space c) = (\<lambda>y. \<not> is_space y)"
      by auto
    from False 2 show ?thesis
      using replace_ws_skip_word [of cs] by (simp add: same)
  qed
qed

lemma laneId_is_slug: "replace_ws (toLowerCase t) = slugify t"
  by (simp add: slugify_def replace_ws_runs)

lemma funnelStages_handleCreateNewLane:
  "trim (newLaneName st) \<noteq> [] \<Longrightarrow>
   funnelStages (handleCreateNewLane st)
     = obj_set (replace_ws (toLowerCase (newLaneName st)))
         \<lparr>title = newLaneName st, color = newLaneColor st, editable = Some True,
          order = plus_one (math_max (map order (obj_values (funnelStages st))))\<rparr>
         (funnelStages st)"
  by (simp add: handleCreateNewLane_def Let_def)

text \<open>
  C8. For a title that is not blank, the stage created is stored under the slug of the
  title: the title in lower case with every maximal run of white space replaced by one
  underscore. The registry gains that identifier and no other, and every other stage is as
  before.
\<close>

theorem created_stage_id_is_slug:
  "trim (newLaneName st) \<noteq> [] \<longrightarrow>
     obj_get (funnelStages (handleCreateNewLane st)) (slugify (newLaneName st))
       = Some \<lparr>title = newLaneName st, color = newLaneColor st, editable = Some True,
               order = plus_one (math_max (map order (obj_values (funnelStages st))))\<rparr>
     \<and> set (obj_keys (funnelStages (handleCreateNewLane st)))
         = insert (slugify (newLaneName st)) (set (obj_keys (funnelStages st)))
     \<and> (\<forall>k. k \<noteq> slugify (newLaneName st) \<longrightarrow>
            obj_get (funnelStages (handleCreateNewLane st)) k = obj_get (funnelStages st) k)"
  by (simp add: funnelStages_handleCreateNewLane laneId_is_slug obj_get_obj_set
        set_obj_keys_obj_set)

theorem created_stage_id_is_slug_witness:
  "trim (newLaneName (initial_state\<lparr>newLaneName := ''  Aula   Experimental VIP ''\<rparr>)) \<noteq> []
   \<and> slugify ''  Aula   Experimental VIP '' = ''_aula_experimental_vip_''
   \<and> map_option title
        (obj_get (funnelStages (handleCreateNewLane
                    (initial_state\<lparr>newLaneName := ''  Aula   Experimental VIP ''\<rparr>)))
           ''_aula_experimental_vip_'')
       = Some ''  Aula   Experimental VIP ''
   \<and> obj_keys (funnelStages (handleCreateNewLane
                    (initial_state\<lparr>newLaneName := ''  Aula   Experimental VIP ''\<rparr>)))
       = obj_keys DEFAULT_FUNNEL_STAGES @ [''_aula_experimental_vip_'']"
proof -
  let ?st = "initial_state\<lparr>newLaneName := ''  Aula   Experimental VIP ''\<rparr>"
  have a: "trim (newLaneName ?st) \<noteq> []"
    by code_simp
  have b: "slugify ''  Aula   Experimental VIP '' = ''_aula_experimental_vip_''"
    by code_simp
  have c: "obj_keys (funnelStages (handleCreateNewLane ?st))
             = obj_keys DEFAULT_FUNNEL_STAGES @ [''_aula_experimental_vip_'']"
    by code_simp
  have n: "newLaneName ?st = ''  Aula   Experimental VIP ''"
    by simp
  from created_stage_id_is_slug [of ?st] a
  have "obj_get (funnelStages (handleCreateNewLane ?st)) (slugify (newLaneName ?st))
          = Some \<lparr>title = newLaneName ?st, color = newLaneColor ?st, editable = Some True,
                  order = plus_one (math_max (map order (obj_values (funnelStages ?st))))\<rparr>"
    by blast
  then have d: "map_option title
                  (obj_get (funnelStages (handleCreateNewLane ?st)) ''_aula_experimental_vip_'')
                = Some ''  Aula   Experimental VIP ''"
    unfolding n b by simp
  show ?thesis
    using a b c d by simp
qed

lemma handleDeleteLane_deletes:
  "is_editable (funnelStages st) laneId \<Longrightarrow>
   funnelStages (handleDeleteLane laneId st) = obj_delete laneId (funnelStages st)"
  by (simp add: handleDeleteLane_def is_editable_def split: option.splits)

text \<open>
  C9. When the identifier derived from the title is already in the registry, also as one of
  the default stages, creation does not fail: the registry keeps its identifiers in their
  places, so the number of stages is unchanged; the stage under that identifier gets the new
  title and colour, the editable flag and the order \<open>max + 1\<close>; every other stage is as
  before; and the stage can now be deleted.
\<close>

theorem create_overwrites_existing_stage:
  assumes "trim (newLaneName st) \<noteq> []"
    and "obj_get (funnelStages st) (replace_ws (toLowerCase (newLaneName st))) = Some old"
  shows "obj_keys (funnelStages (handleCreateNewLane st)) = obj_keys (funnelStages st)
       \<and> length (funnelStages (handleCreateNewLane st)) = length (funnelStages st)
       \<and> obj_get (funnelStages (handleCreateNewLane st)) (replace_ws (toLowerCase (newLaneName st)))
           = Some \<lparr>title = newLaneName st, color = newLaneColor st, editable = Some True,
                   order = plus_one (math_max (map order (obj_values (funnelStages st))))\<rparr>
       \<and> (\<forall>k. k \<noteq> replace_ws (toLowerCase (newLaneName st)) \<longrightarrow>
              obj_get (funnelStages (handleCreateNewLane st)) k = obj_get (funnelStages st) k)
       \<and> is_editable (funnelStages (handleCreateNewLane st)) (replace_ws (toLowerCase (newLaneName st)))
       \<and> obj_get (funnelStages (handleDeleteLane (replace_ws (toLowerCase (newLaneName st)))
                                  (handleCreateNewLane st)))
            (replace_ws (toLowerCase (newLaneName st))) = None"
proof -
  let ?k = "replace_ws (toLowerCase (newLaneName st))"
  let ?st' = "handleCreateNewLane st"
  have keys: "obj_keys (funnelStages ?st') = obj_keys (funnelStages st)"
    using assms by (simp add: funnelStages_handleCreateNewLane obj_keys_obj_set_existing)
  then have len: "length (funnelStages ?st') = length (funnelStages st)"
    unfolding obj_keys_def by (rule map_eq_imp_length_eq)
  have get: "obj_get (funnelStages ?st') k
               = (if k = ?k
                  then Some \<lparr>title = newLaneName st, color = newLaneColor st, editable = Some True,
                            order = plus_one (math_max (map order (obj_values (funnelStages st))))\<rparr>
                  else obj_get (funnelStages st) k)" for k
    using assms(1) by (simp add: funnelStages_handleCreateNewLane obj_get_obj_set)
  have ed: "is_editable (funnelStages ?st') ?k"
    by (simp add: is_editable_def get)
  have del: "obj_get (funnelStages (handleDeleteLane ?k ?st')) ?k = None"
    using handleDeleteLane_deletes [OF ed] by (simp add: obj_get_obj_delete)
  show ?thesis
    using keys len ed del by (simp add: get)
qed

theorem create_overwrites_existing_stage_witness:
  "trim (newLaneName (initial_state\<lparr>newLaneName := ''Pending''\<rparr>)) \<noteq> []
   \<and> replace_ws (toLowerCase (newLaneName (initial_state\<lparr>newLaneName := ''Pending''\<rparr>))) = ''pending''
   \<and> map_option editable (obj_get (funnelStages initial_state) ''pending'') = Some None
   \<and> obj_keys (funnelStages (handleCreateNewLane (initial_state\<lparr>newLaneName := ''Pending''\<rparr>)))
       = obj_keys (funnelStages initial_state)
   \<and> length (funnelStages (handleCreateNewLane (initial_state\<lparr>newLaneName := ''Pending''\<rparr>))) = 7
   \<and> obj_get (funnelStages (handleCreateNewLane (initial_state\<lparr>newLaneName := ''Pending''\<rparr>)))
        ''pending''
       = Some \<lparr>title = ''Pending'', color = ''bg-indigo-500'', editable = Some True, order = Fin 7\<rparr>
   \<and> is_editable (funnelStages (handleCreateNewLane (initial_state\<lparr>newLaneName := ''Pending''\<rparr>)))
        ''pending''
   \<and> obj_get (funnelStages (handleDeleteLane ''pending''
                 (handleCreateNewLane (initial_state\<lparr>newLaneName := ''Pending''\<rparr>)))) ''pending''
       = None"
proof -
  let ?st = "initial_state\<lparr>newLaneName := ''Pending''\<rparr>"
  have a: "trim (newLaneName ?st) \<noteq> []"
    by code_simp
  have k: "replace_ws (toLowerCase (newLaneName ?st)) = ''pending''"
    by code_simp
  have b: "obj_get (funnelStages ?st) (replace_ws (toLowerCase (newLaneName ?st)))
             = Some \<lparr>title = ''Novos Leads'', color = ''bg-blue-500'', editable = None, order = Fin 0\<rparr>"
    by code_simp
  have c: "map_option editable (obj_get (funnelStages initial_state) ''pending'') = Some None"
    by code_simp
  have l: "length (funnelStages initial_state) = 7"
    by code_simp
  have d: "newLaneColor initial_state = ''bg-indigo-500''"
    "plus_one (math_max (map order (obj_values (funnelStages initial_state)))) = Fin 7"
    by code_simp+
  show ?thesis
    using create_overwrites_existing_stage [OF a b] a c l
    unfolding k by (simp add: d)
qed

section \<open>The order of a new stage\<close>

lemma math_max_upper: "x \<in> set xs \<Longrightarrow> x \<le> math_max xs"
  by (induction xs) (auto simp add: math_max_def max.coboundedI2)

lemma math_max_finite:
  assumes "x \<in> set xs" and "x \<noteq> NegInf"
  shows "math_max xs \<noteq> NegInf"
proof
  assume "math_max xs = NegInf"
  with math_max_upper [OF assms(1)] have "x \<le> NegInf"
    by simp
  with assms(2) show False
    by (cases x) simp_all
qed

lemma less_plus_one: "x \<noteq> NegInf \<Longrightarrow> x < plus_one x"
  by (cases x) (simp_all add: less_jsnum_def)

text \<open>
  As long as one stage has a finite order, a new stage is placed above every stage of the
  registry.
\<close>

lemma create_order_above_finite:
  assumes "trim (newLaneName st) \<noteq> []"
    and "(k0, s0) \<in> set (funnelStages st)" and "order s0 \<noteq> NegInf"
    and "(k, s) \<in> set (funnelStages st)"
    and "obj_get (funnelStages (handleCreateNewLane st)) (replace_ws (toLowerCase (newLaneName st)))
           = Some new"
  shows "order s < order new"
proof -
  let ?os = "map order (obj_values (funnelStages st))"
  have "order s0 \<in> set ?os" and "order s \<in> set ?os"
    using assms(2,4) by (force simp add: obj_values_def)+
  then have "math_max ?os \<noteq> NegInf" and "order s \<le> math_max ?os"
    using assms(3) math_max_finite [of "order s0" ?os] math_max_upper [of "order s" ?os]
    by simp_all
  then have "order s < plus_one (math_max ?os)"
    using less_plus_one [of "math_max ?os"] by simp
  moreover have "order new = plus_one (math_max ?os)"
    using assms(1,5) by (auto simp add: funnelStages_handleCreateNewLane obj_get_obj_set)
  ultimately show ?thesis by simp
qed

lemma funnelStages_create_lane:
  "trim name \<noteq> [] \<Longrightarrow>
   funnelStages (create_lane name colour st)
     = obj_set (replace_ws (toLowerCase name))
         \<lparr>title = name, color = colour, editable = Some True,
          order = plus_one (math_max (map order (obj_values (funnelStages st))))\<rparr>
         (funnelStages st)"
  by (simp add: create_lane_def funnelStages_handleCreateNewLane)

lemma obj_delete_insert_index: "obj_delete k (insert_index n k v m) = obj_delete k m"
proof -
  obtain ys zs where "m = ys @ zs" "insert_index n k v m = ys @ (k, v) # zs"
    using insert_index_split [of m n k v] by auto
  then show ?thesis
    by (simp add: obj_delete_def)
qed

lemma obj_delete_obj_set: "obj_delete k (obj_set k v m) = obj_delete k m"
proof (cases "obj_get m k")
  case None
  then show ?thesis
    by (simp add: obj_set_def obj_delete_insert_index split: option.splits)
      (simp add: obj_delete_def)
next
  case (Some old)
  have "filter (\<lambda>(k', v'). k' \<noteq> k) (map (\<lambda>(k', v'). if k' = k then (k', v) else (k', v')) m)
          = filter (\<lambda>(k', v'). k' \<noteq> k) m"
    by (induction m) auto
  with Some show ?thesis
    by (simp add: obj_set_def obj_delete_def)
qed

lemma funnelStages_overwrite_delete:
  assumes "trim k \<noteq> []" and "replace_ws (toLowerCase k) = k"
  shows "funnelStages (handleDeleteLane k (create_lane k colour st)) = obj_delete k (funnelStages st)"
proof -
  have "is_editable (funnelStages (create_lane k colour st)) k"
    using assms by (simp add: funnelStages_create_lane is_editable_def obj_get_obj_set)
  then show ?thesis
    using assms by (simp add: handleDeleteLane_deletes funnelStages_create_lane obj_delete_obj_set)
qed

lemma funnelStages_overwrite_delete_all:
  "list_all (\<lambda>k. trim k \<noteq> [] \<and> replace_ws (toLowerCase k) = k) ks \<Longrightarrow>
   funnelStages (fold (\<lambda>k st. handleDeleteLane k (create_lane k colour st)) ks st)
     = fold obj_delete ks (funnelStages st)"
  by (induction ks arbitrary: st) (simp_all add: funnelStages_overwrite_delete)

text \<open>
  C3. Creating a stage in a registry that is not empty does not always give it an order
  above every stage already there. Once every default stage has been overwritten and
  deleted the registry is empty; the lane \<open>a\<close> created then gets \<open>Math.max() + 1\<close>, which is
  \<open>-Infinity\<close>; the lane \<open>b\<close> created next gets \<open>-Infinity + 1\<close>, \<open>-Infinity\<close> again, which
  is not above the order of \<open>a\<close>.
\<close>

theorem create_after_emptying_board:
  "funnelStages emptied_board = []
   \<and> map (\<lambda>(k, stage). (k, order stage))
        (funnelStages (create_lane ''a'' ''bg-indigo-500'' emptied_board))
       = [(''a'', NegInf)]
   \<and> map (\<lambda>(k, stage). (k, order stage))
        (funnelStages (create_lane ''b'' ''bg-indigo-500''
                         (create_lane ''a'' ''bg-indigo-500'' emptied_board)))
       = [(''a'', NegInf), (''b'', NegInf)]
   \<and> \<not> (NegInf < plus_one NegInf)"
proof -
  have "list_all (\<lambda>k. trim k \<noteq> [] \<and> replace_ws (toLowerCase k) = k) (obj_keys DEFAULT_FUNNEL_STAGES)"
    by code_simp
  then have "funnelStages emptied_board
               = fold obj_delete (obj_keys DEFAULT_FUNNEL_STAGES) (funnelStages initial_state)"
    unfolding emptied_board_def by (rule funnelStages_overwrite_delete_all)
  also have "\<dots> = []"
    by code_simp
  finally have empty: "funnelStages emptied_board = []" .
  have names: "trim ''a'' \<noteq> []" "replace_ws (toLowerCase ''a'') = ''a''"
    "trim ''b'' \<noteq> []" "replace_ws (toLowerCase ''b'') = ''b''"
    "array_index ''a'' = None" "array_index ''b'' = None"
    by code_simp+
  have a: "funnelStages (create_lane ''a'' ''bg-indigo-500'' emptied_board)
             = [(''a'', \<lparr>title = ''a'', color = ''bg-indigo-500'', editable = Some True,
                         order = NegInf\<rparr>)]"
    by (simp add: funnelStages_create_lane names empty obj_set_def obj_get_def obj_values_def
          math_max_def)
  have b: "funnelStages (create_lane ''b'' ''bg-indigo-500''
                           (create_lane ''a'' ''bg-indigo-500'' emptied_board))
             = [(''a'', \<lparr>title = ''a'', color = ''bg-indigo-500'', editable = Some True,
                         order = NegInf\<rparr>),
                (''b'', \<lparr>title = ''b'', color = ''bg-indigo-500'', editable = Some True,
                         order = NegInf\<rparr>)]"
    by (simp add: funnelStages_create_lane names a obj_set_def obj_get_def obj_values_def
          math_max_def)
  show ?thesis
    by (simp add: empty a b less_jsnum_def)
qed

section \<open>Dropping a lead\<close>

text \<open>
  C4, as stated, fails in two ways. In the first version of the handler a lead dropped in
  its own stage at another position issues no remote update at all (and so in the version
  with draggable lanes); and in every version a drop on another stage whose remote update
  is rejected issues the call but leaves the status of the lead as it was.
\<close>

theorem lead_drop_counterexample:
  "handleDragEnd_fixed (\<lambda>l s. True) (lead_drop ''b2'' ''pending'' 1 ''pending'' 0) loaded_state
     = Inr loaded_state
   \<and> handleDragEnd_lanes (\<lambda>l s. True) (lead_drop ''b2'' ''pending'' 1 ''pending'' 0) loaded_state
     = Inr loaded_state
   \<and> remote_log loaded_state = []
   \<and> (\<exists>st'. handleDragEnd (\<lambda>l s. False) (lead_drop ''b2'' ''pending'' 1 ''contacted'' 0)
               loaded_state = Inr st'
          \<and> remote_log st' = [(''b2'', ''contacted'')]
          \<and> map status (leads st') = [Some ''pending'', Some ''pending''])"
  by (simp add: handleDragEnd_fixed_def handleDragEnd_lanes_def handleDragEnd_def lead_drop_def
        update_then_patch_def loaded_state_def loadLeads_def sample_rows_def initial_state_def
        Let_def)

text \<open>
  C4, amended. For a lead drop with a destination that is not a drop on the same stage at
  the same position, the latest handler issues one remote status update for the dragged
  lead with the destination stage and, when that update succeeds, patches the status of
  that lead in the cache to the destination stage, changing nothing else in the cache; the
  registry is untouched. The two earlier versions do the same when the destination stage
  differs from the source stage, and nothing when it is the same stage.
\<close>

theorem lead_drop_updates_remote_then_cache:
  assumes "destination result = Some dest"
    and "drop_type result \<noteq> ''LANE''"
    and "\<not> (droppableId (source result) = droppableId dest \<and> index (source result) = index dest)"
  shows "(\<exists>st'. handleDragEnd remote result st = Inr st'
            \<and> remote_log st' = remote_log st @ [(draggableId result, droppableId dest)]
            \<and> (remote (draggableId result) (droppableId dest) \<longrightarrow>
                  only_status_patched (draggableId result) (droppableId dest) (leads st) (leads st')
                  \<and> error st' = error st)
            \<and> funnelStages st' = funnelStages st)
       \<and> (droppableId (source result) \<noteq> droppableId dest \<longrightarrow>
             handleDragEnd_lanes remote result st = handleDragEnd remote result st
             \<and> handleDragEnd_fixed remote result st = handleDragEnd remote result st)
       \<and> (droppableId (source result) = droppableId dest \<longrightarrow>
             handleDragEnd_lanes remote result st = Inr st
             \<and> handleDragEnd_fixed remote result st = Inr st)"
proof -
  let ?st' = "update_then_patch remote (draggableId result) (droppableId dest) st"
  have run: "handleDragEnd remote result st = Inr ?st'"
    using assms by (rule handleDragEnd_lead_drop)
  have log: "remote_log ?st' = remote_log st @ [(draggableId result, droppableId dest)]"
    and stages: "funnelStages ?st' = funnelStages st"
    by (simp_all add: update_then_patch_def Let_def)
  have ok: "only_status_patched (draggableId result) (droppableId dest) (leads st) (leads ?st')
            \<and> error ?st' = error st"
    if "remote (draggableId result) (droppableId dest)"
    using that by (simp add: leads_update_then_patch only_status_patched_patch)
      (simp add: update_then_patch_def Let_def)
  have earlier: "handleDragEnd_lanes remote result st = Inr ?st'
                 \<and> handleDragEnd_fixed remote result st = Inr ?st'"
    if "droppableId (source result) \<noteq> droppableId dest"
    using that assms(1,2) by (simp add: handleDragEnd_lanes_def handleDragEnd_fixed_def)
  have same: "handleDragEnd_lanes remote result st = Inr st
              \<and> handleDragEnd_fixed remote result st = Inr st"
    if "droppableId (source result) = droppableId dest"
    using that assms(1,2) by (simp add: handleDragEnd_lanes_def handleDragEnd_fixed_def Let_def)
  show ?thesis
    using run log stages ok earlier same by simp
qed

theorem lead_drop_updates_remote_then_cache_witness:
  "(\<exists>st'. handleDragEnd (\<lambda>l s. True) (lead_drop ''b2'' ''pending'' 1 ''pending'' 0) loaded_state
            = Inr st'
       \<and> remote_log st' = [(''b2'', ''pending'')]
       \<and> only_status_patched ''b2'' ''pending'' (leads loaded_state) (leads st')
       \<and> funnelStages st' = funnelStages loaded_state)
   \<and> handleDragEnd_lanes (\<lambda>l s. True) (lead_drop ''b2'' ''pending'' 1 ''pending'' 0) loaded_state
       = Inr loaded_state
   \<and> handleDragEnd_fixed (\<lambda>l s. True) (lead_drop ''b2'' ''pending'' 1 ''pending'' 0) loaded_state
       = Inr loaded_state
   \<and> (\<exists>st'. handleDragEnd (\<lambda>l s. True) (lead_drop ''b2'' ''pending'' 1 ''contacted'' 0) loaded_state
            = Inr st'
       \<and> remote_log st' = [(''b2'', ''contacted'')]
       \<and> only_status_patched ''b2'' ''contacted'' (leads loaded_state) (leads st')
       \<and> handleDragEnd_lanes (\<lambda>l s. True) (lead_drop ''b2'' ''pending'' 1 ''contacted'' 0)
            loaded_state = Inr st'
       \<and> handleDragEnd_fixed (\<lambda>l s. True) (lead_drop ''b2'' ''pending'' 1 ''contacted'' 0)
            loaded_state = Inr st')"
proof -
  let ?same = "lead_drop ''b2'' ''pending'' 1 ''pending'' 0"
  let ?other = "lead_drop ''b2'' ''pending'' 1 ''contacted'' 0"
  have log: "remote_log loaded_state = []"
    by (simp add: loaded_state_def loadLeads_def initial_state_def)
  have s: "destination ?same = Some \<lparr>droppableId = ''pending'', index = 0\<rparr>"
    "drop_type ?same \<noteq> ''LANE''"
    "\<not> (droppableId (source ?same) = droppableId \<lparr>droppableId = ''pending'', index = 0\<rparr>
        \<and> index (source ?same) = index \<lparr>droppableId = ''pending'', index = 0\<rparr>)"
    by (simp_all add: lead_drop_def)
  have t: "destination ?other = Some \<lparr>droppableId = ''contacted'', index = 0\<rparr>"
    "drop_type ?other \<noteq> ''LANE''"
    "\<not> (droppableId (source ?other) = droppableId \<lparr>droppableId = ''contacted'', index = 0\<rparr>
        \<and> index (source ?other) = index \<lparr>droppableId = ''contacted'', index = 0\<rparr>)"
    by (simp_all add: lead_drop_def)
  show ?thesis
    using lead_drop_updates_remote_then_cache [OF s, of "\<lambda>l s. True" loaded_state]
      lead_drop_updates_remote_then_cache [OF t, of "\<lambda>l s. True" loaded_state]
    by (auto simp add: lead_drop_def log)
qed

section \<open>Reordering stages\<close>

lemma obj_get_nth:
  assumes "distinct (obj_keys m)" and "p < length m"
  shows "obj_get m (fst (m ! p)) = Some (snd (m ! p))"
proof -
  have "(fst (m ! p), snd (m ! p)) \<in> set m"
    using assms(2) by simp
  with assms(1) show ?thesis
    by (simp add: obj_get_def obj_keys_def)
qed

lemma key_position_unique:
  assumes "distinct (obj_keys m)" and "p < length m" and "n < length m"
    and "fst (m ! n) = fst (m ! p)"
  shows "n = p"
proof -
  have "map fst m ! n = map fst m ! p"
    using assms(2-4) by simp
  moreover have "distinct (map fst m)" and "n < length (map fst m)" and "p < length (map fst m)"
    using assms(1-3) by (simp_all add: obj_keys_def)
  ultimately show ?thesis
    using nth_eq_iff_index_eq [of "map fst m" n p] by blast
qed

lemma set_order_at:
  assumes "distinct (obj_keys m)" and "p < length m" and "fst (m ! p) = k"
  shows "set_order k v m = m[p := (k, (snd (m ! p))\<lparr>order := v\<rparr>)]"
proof -
  let ?new = "(snd (m ! p))\<lparr>order := v\<rparr>"
  have get: "obj_get m k = Some (snd (m ! p))"
    using obj_get_nth [OF assms(1,2)] assms(3) by simp
  then have "set_order k v m = map (\<lambda>(k', v'). if k' = k then (k', ?new) else (k', v')) m"
    by (simp add: set_order_def obj_set_def)
  also have "\<dots> = m[p := (k, ?new)]"
  proof (rule nth_equalityI)
    show "length (map (\<lambda>(k', v'). if k' = k then (k', ?new) else (k', v')) m)
            = length (m[p := (k, ?new)])"
      by simp
  next
    fix n
    assume "n < length (map (\<lambda>(k', v'). if k' = k then (k', ?new) else (k', v')) m)"
    then have n: "n < length m"
      by simp
    show "map (\<lambda>(k', v'). if k' = k then (k', ?new) else (k', v')) m ! n = m[p := (k, ?new)] ! n"
    proof (cases "n = p")
      case True
      with assms(2,3) show ?thesis
        by (simp add: case_prod_beta)
    next
      case False
      then have "fst (m ! n) \<noteq> k"
        using key_position_unique [OF assms(1,2) n] assms(3) by auto
      with False n show ?thesis
        by (simp add: case_prod_beta)
    qed
  qed
  finally show ?thesis .
qed

lemma obj_keys_set_order: "obj_keys (set_order k v m) = obj_keys m"
  by (auto simp add: set_order_def obj_keys_obj_set_existing split: option.splits)

lemma obj_get_set_order:
  "obj_get (set_order k v m) k'
     = (if k' = k then map_option (\<lambda>stage. stage\<lparr>order := v\<rparr>) (obj_get m k) else obj_get m k')"
  by (auto simp add: set_order_def obj_get_obj_set split: option.splits)

lemma orders_set_order_at:
  assumes "distinct (obj_keys m)" and "p < length m" and "fst (m ! p) = k"
  shows "map order (obj_values (set_order k v m)) = (map order (obj_values m))[p := v]"
  unfolding set_order_at [OF assms] obj_values_def
  by (simp add: map_update)

subsection \<open>Renumbering after a drag\<close>

lemma obj_keys_renumber: "obj_keys (renumber i es m) = obj_keys m"
  by (induction i es m rule: renumber.induct) (simp_all add: obj_keys_set_order)

lemma obj_get_renumber_other:
  "k \<notin> fst ` set es \<Longrightarrow> obj_get (renumber i es m) k = obj_get m k"
  by (induction i es m rule: renumber.induct) (auto simp add: obj_get_set_order)

lemma obj_get_renumber:
  assumes "distinct (map fst es)" and "j < length es"
  shows "obj_get (renumber i es m) (fst (es ! j))
           = map_option (\<lambda>stage. stage\<lparr>order := Fin (int (i + j))\<rparr>) (obj_get m (fst (es ! j)))"
  using assms
proof (induction i es m arbitrary: j rule: renumber.induct)
  case (1 i m)
  then show ?case by simp
next
  case (2 i stageId stage es m)
  show ?case
  proof (cases j)
    case 0
    have "stageId \<notin> fst ` set es"
      using "2.prems"(1) by simp
    then show ?thesis
      using 0 by (simp add: obj_get_renumber_other obj_get_set_order)
  next
    case (Suc j')
    then have j': "j' < length es" and d: "distinct (map fst es)"
      using "2.prems" by simp_all
    have "fst (es ! j') \<in> fst ` set es"
      using j' by simp
    then have ne: "fst (es ! j') \<noteq> stageId"
      using "2.prems"(1) by auto
    show ?thesis
      using "2.IH" [OF d j'] Suc ne by (simp add: obj_get_set_order)
  qed
qed

lemma mset_take_drop: "mset (take j ys) + mset (drop j ys) = mset ys"
  by (simp only: mset_append [symmetric] append_take_drop_id)

lemma mset_splice_insert: "mset (splice_insert j x ys) = add_mset x (mset ys)"
  by (simp add: splice_insert_def mset_take_drop)

lemma mset_splice_remove:
  assumes "i < length xs"
  shows "add_mset (xs ! i) (mset (splice_remove i xs)) = mset xs"
proof -
  have "xs = take i xs @ xs ! i # drop (Suc i) xs"
    using assms by (rule id_take_nth_drop)
  then have "mset xs = mset (take i xs @ xs ! i # drop (Suc i) xs)"
    by simp
  then show ?thesis
    by (simp add: splice_remove_def)
qed

lemma mset_splice:
  "src < length xs \<Longrightarrow> mset (splice_insert dst (xs ! src) (splice_remove src xs)) = mset xs"
  by (simp add: mset_splice_insert mset_splice_remove)

lemma orders_via_get:
  assumes "distinct (obj_keys m)"
  shows "map order (obj_values m) = map (\<lambda>k. order (the (obj_get m k))) (obj_keys m)"
proof (rule nth_equalityI)
  show "length (map order (obj_values m)) = length (map (\<lambda>k. order (the (obj_get m k))) (obj_keys m))"
    by (simp add: obj_values_def obj_keys_def)
next
  fix n
  assume "n < length (map order (obj_values m))"
  then have n: "n < length m"
    by (simp add: obj_values_def)
  then show "map order (obj_values m) ! n = map (\<lambda>k. order (the (obj_get m k))) (obj_keys m) ! n"
    using obj_get_nth [OF assms n] by (simp add: obj_values_def obj_keys_def)
qed

lemma sorted_same_mset:
  fixes xs ys :: "jsnum list"
  assumes "sorted xs" and "sorted ys" and "mset xs = mset ys"
  shows "xs = ys"
proof -
  have "sort xs = ys"
    using assms(2,3) by (simp add: properties_for_sort)
  moreover have "sort xs = xs"
    using assms(1) by (rule sorted_sort_id)
  ultimately show ?thesis by simp
qed

lemma sorted_orders:
  "sorted (map (\<lambda>(k, stage). order stage) (sort_key (\<lambda>(k, stage). order stage) m))"
  by (rule sorted_sort_key)

lemma mset_sorted_orders:
  "mset (map (\<lambda>(k, stage). order stage) (sort_key (\<lambda>(k, stage). order stage) m))
     = mset (map order (obj_values m))"
proof -
  have eq: "(\<lambda>(k, stage). order stage) = order \<circ> snd"
    by auto
  show ?thesis
    unfolding eq obj_values_def by (simp add: multiset.map_comp)
qed

lemma sorted_dense: "sorted (map (\<lambda>i. Fin (int i)) [0..<n])"
  by (induction n) (auto simp add: sorted_append)

lemma reorder_lanes_dense:
  assumes d: "distinct (obj_keys (funnelStages st))" and src: "src < length (funnelStages st)"
  shows "\<exists>st'. reorder_lanes src dst st = Inr st'
           \<and> obj_keys (funnelStages st') = obj_keys (funnelStages st)
           \<and> map (\<lambda>(k, stage). order stage) (getSortedStages st')
               = map (\<lambda>i. Fin (int i)) [0..<length (funnelStages st)]"
proof -
  let ?fs = "funnelStages st"
  let ?sorted = "getSortedStages st"
  let ?es = "splice_insert dst (?sorted ! src) (splice_remove src ?sorted)"
  let ?fs' = "renumber 0 ?es ?fs"
  let ?st' = "st\<lparr>funnelStages := ?fs', isDraggingLane := False\<rparr>"
  let ?n = "length ?fs"
  have len_sorted: "length ?sorted = ?n" and mset_sorted: "mset ?sorted = mset ?fs"
    by (simp_all add: getSortedStages_def)
  have run: "reorder_lanes src dst st = Inr ?st'"
    using src by (simp add: reorder_lanes_def Let_def len_sorted)
  have mset_es: "mset ?es = mset ?fs"
    using src by (simp add: mset_splice len_sorted mset_sorted)
  then have len_es: "length ?es = ?n"
    by (rule mset_eq_length)
  have keys_es: "mset (map fst ?es) = mset (obj_keys ?fs)"
    unfolding obj_keys_def mset_map mset_es ..
  have d_es: "distinct (map fst ?es)"
    using d mset_eq_imp_distinct_iff [OF keys_es] by simp
  have keys: "obj_keys ?fs' = obj_keys ?fs"
    by (rule obj_keys_renumber)
  have d': "distinct (obj_keys ?fs')"
    using d keys by simp
  have get: "order (the (obj_get ?fs' (fst (?es ! j)))) = Fin (int j)" if "j < ?n" for j
  proof -
    have "fst (?es ! j) \<in> set (map fst ?es)"
      using that len_es by simp
    then have "fst (?es ! j) \<in> set (obj_keys ?fs)"
      using mset_eq_setD [OF keys_es] by simp
    then obtain s where "obj_get ?fs (fst (?es ! j)) = Some s"
      using obj_get_None_iff [of ?fs "fst (?es ! j)"] by (cases "obj_get ?fs (fst (?es ! j))") auto
    then show ?thesis
      using obj_get_renumber [OF d_es, of j 0 ?fs] that len_es by simp
  qed
  have vals: "map (\<lambda>e. order (the (obj_get ?fs' (fst e)))) ?es = map (\<lambda>i. Fin (int i)) [0 ..< ?n]"
    by (rule nth_equalityI) (simp_all add: len_es get)
  have "mset (map order (obj_values ?fs'))
          = mset (map (\<lambda>k. order (the (obj_get ?fs' k))) (obj_keys ?fs'))"
    using orders_via_get [OF d'] by simp
  also have "\<dots> = image_mset (\<lambda>k. order (the (obj_get ?fs' k))) (mset (map fst ?es))"
    unfolding keys keys_es by simp
  also have "\<dots> = mset (map (\<lambda>e. order (the (obj_get ?fs' (fst e)))) ?es)"
    by (simp add: multiset.map_comp comp_def)
  finally have m: "mset (map order (obj_values ?fs')) = mset (map (\<lambda>i. Fin (int i)) [0 ..< ?n])"
    unfolding vals .
  have "mset (map (\<lambda>(k, stage). order stage) (sort_key (\<lambda>(k, stage). order stage) ?fs'))
          = mset (map (\<lambda>i. Fin (int i)) [0 ..< ?n])"
    using mset_sorted_orders [of ?fs'] m by (simp only:)
  then have "map (\<lambda>(k, stage). order stage) (sort_key (\<lambda>(k, stage). order stage) ?fs')
               = map (\<lambda>i. Fin (int i)) [0 ..< ?n]"
    by (rule sorted_same_mset [OF sorted_orders sorted_dense])
  then have "map (\<lambda>(k, stage). order stage) (getSortedStages ?st') = map (\<lambda>i. Fin (int i)) [0 ..< ?n]"
    by (simp add: getSortedStages_def)
  with run keys show ?thesis
    by simp
qed

subsection \<open>Swapping two neighbours\<close>

lemma obj_get_position:
  assumes "obj_get m k = Some v"
  shows "\<exists>p < length m. m ! p = (k, v)"
proof -
  have "(k, v) \<in> set m"
    using assms by (simp add: obj_get_def map_of_SomeD)
  then show ?thesis
    by (simp add: in_set_conv_nth)
qed

lemma swap_orders:
  assumes d: "distinct (obj_keys m)"
    and a: "obj_get m a = Some cur" and b: "obj_get m b = Some tgt"
  shows "obj_keys (set_order b (order cur) (set_order a (order tgt) m)) = obj_keys m
       \<and> mset (map order (obj_values (set_order b (order cur) (set_order a (order tgt) m))))
           = mset (map order (obj_values m))"
proof -
  let ?m1 = "set_order a (order tgt) m"
  let ?os = "map order (obj_values m)"
  obtain p where p: "p < length m" "m ! p = (a, cur)"
    using obj_get_position [OF a] by blast
  obtain q where q: "q < length m" "m ! q = (b, tgt)"
    using obj_get_position [OF b] by blast
  have keys1: "obj_keys ?m1 = obj_keys m"
    by (rule obj_keys_set_order)
  have d1: "distinct (obj_keys ?m1)"
    using d keys1 by simp
  have len1: "length ?m1 = length m"
    using keys1 unfolding obj_keys_def by (rule map_eq_imp_length_eq)
  have "map fst ?m1 ! q = map fst m ! q"
    using keys1 by (simp add: obj_keys_def)
  then have q1: "fst (?m1 ! q) = b"
    using q len1 by simp
  have o1: "map order (obj_values ?m1) = ?os[p := order tgt]"
    using orders_set_order_at [OF d p(1)] p(2) by simp
  have "map order (obj_values (set_order b (order cur) ?m1)) = (?os[p := order tgt])[q := order cur]"
    using orders_set_order_at [OF d1 _ q1] q(1) len1 o1 by simp
  also have "\<dots> = ?os[p := ?os ! q, q := ?os ! p]"
    using p q by (simp add: obj_values_def)
  finally have "mset (map order (obj_values (set_order b (order cur) ?m1))) = mset ?os"
    using mset_swap [of q ?os p] p(1) q(1) by (simp add: obj_values_def)
  then show ?thesis
    by (simp add: obj_keys_set_order)
qed

lemma findIndex_Some: "findIndex P xs = Some i \<Longrightarrow> i < length xs \<and> P (xs ! i)"
  by (induction xs arbitrary: i) (auto split: if_splits)

lemma moveLane_orders:
  assumes "distinct (obj_keys (funnelStages st))"
  shows "obj_keys (funnelStages (moveLane laneId dir st)) = obj_keys (funnelStages st)
       \<and> mset (map order (obj_values (funnelStages (moveLane laneId dir st))))
           = mset (map order (obj_values (funnelStages st)))"
  using swap_orders [OF assms]
  by (auto simp add: moveLane_def Let_def split: option.splits)

lemma moveLane_sorted_orders:
  assumes "distinct (obj_keys (funnelStages st))"
  shows "map (\<lambda>(k, stage). order stage) (getSortedStages (moveLane laneId dir st))
           = map (\<lambda>(k, stage). order stage) (getSortedStages st)"
proof -
  have "mset (map (\<lambda>(k, stage). order stage)
                (sort_key (\<lambda>(k, stage). order stage) (funnelStages (moveLane laneId dir st))))
          = mset (map (\<lambda>(k, stage). order stage)
                (sort_key (\<lambda>(k, stage). order stage) (funnelStages st)))"
    using moveLane_orders [OF assms, of laneId dir]
    by (simp only: mset_sorted_orders)
  then show ?thesis
    unfolding getSortedStages_def
    by (rule sorted_same_mset [OF sorted_orders sorted_orders])
qed

subsection \<open>The identifiers of a registry stay distinct\<close>

lemma distinct_keys_initial: "distinct (obj_keys (funnelStages initial_state))"
  by code_simp

lemma distinct_keys_preserved:
  assumes "distinct (obj_keys (funnelStages st))"
  shows "distinct (obj_keys (funnelStages (handleCreateNewLane st)))"
    and "distinct (obj_keys (funnelStages (handleDeleteLane laneId st)))"
    and "distinct (obj_keys (funnelStages (moveLane laneId dir st)))"
    and "reorder_lanes src dst st = Inr st' \<Longrightarrow> distinct (obj_keys (funnelStages st'))"
    and "distinct (obj_keys (funnelStages (update_then_patch remote L S st)))"
proof -
  show "distinct (obj_keys (funnelStages (handleCreateNewLane st)))"
    using assms by (simp add: handleCreateNewLane_def Let_def distinct_obj_set)
  show "distinct (obj_keys (funnelStages (handleDeleteLane laneId st)))"
    using assms by (simp add: handleDeleteLane_def obj_keys_obj_delete distinct_removeAll)
  show "distinct (obj_keys (funnelStages (moveLane laneId dir st)))"
    using assms moveLane_orders [OF assms, of laneId dir] by simp
  show "distinct (obj_keys (funnelStages st'))" if "reorder_lanes src dst st = Inr st'"
    using that assms
    by (auto simp add: reorder_lanes_def Let_def obj_keys_renumber split: if_splits)
  show "distinct (obj_keys (funnelStages (update_then_patch remote L S st)))"
    using assms by (simp add: update_then_patch_def Let_def)
qed

lemma findIndex_map_fst:
  "findIndex (\<lambda>(k, stage). k = laneId) es = findIndex (\<lambda>k. k = laneId) (map fst es)"
  by (induction es) auto

lemma distinct_sorted_keys:
  assumes "distinct (obj_keys (funnelStages st))"
  shows "distinct (map fst (getSortedStages st))"
proof -
  have "mset (map fst (getSortedStages st)) = mset (obj_keys (funnelStages st))"
    by (simp add: getSortedStages_def obj_keys_def)
  then show ?thesis
    using assms mset_eq_imp_distinct_iff by blast
qed

lemma sorted_key_present:
  assumes "j < length (getSortedStages st)"
  shows "\<exists>stage. obj_get (funnelStages st) (fst (getSortedStages st ! j)) = Some stage"
proof -
  have "getSortedStages st ! j \<in> set (getSortedStages st)"
    using assms by simp
  then have "getSortedStages st ! j \<in> set (funnelStages st)"
    by (simp add: getSortedStages_def)
  then have "fst (getSortedStages st ! j) \<in> set (obj_keys (funnelStages st))"
    by (simp add: obj_keys_def)
  then show ?thesis
    using obj_get_None_iff [of "funnelStages st" "fst (getSortedStages st ! j)"]
    by (cases "obj_get (funnelStages st) (fst (getSortedStages st ! j))") auto
qed

lemma moveLane_swap:
  assumes d: "distinct (obj_keys (funnelStages st))"
    and i: "findIndex (\<lambda>(k, stage). k = laneId) (getSortedStages st) = Some i"
    and j: "j < length (getSortedStages st)" and ij: "j \<noteq> i"
    and t: "t = fst (getSortedStages st ! j)"
    and run: "moveLane laneId dir st
                = (case (obj_get (funnelStages st) laneId, obj_get (funnelStages st) t) of
                     (Some cur, Some tgt) \<Rightarrow>
                        st\<lparr>funnelStages :=
                             set_order t (order cur) (set_order laneId (order tgt) (funnelStages st))\<rparr>
                   | _ \<Rightarrow> st)"
  shows "t \<noteq> laneId
       \<and> (\<exists>cur tgt. obj_get (funnelStages st) laneId = Some cur
             \<and> obj_get (funnelStages st) t = Some tgt
             \<and> obj_get (funnelStages (moveLane laneId dir st)) laneId = Some (cur\<lparr>order := order tgt\<rparr>)
             \<and> obj_get (funnelStages (moveLane laneId dir st)) t = Some (tgt\<lparr>order := order cur\<rparr>))
       \<and> (\<forall>k. k \<noteq> laneId \<and> k \<noteq> t \<longrightarrow>
             obj_get (funnelStages (moveLane laneId dir st)) k = obj_get (funnelStages st) k)
       \<and> moveLane laneId dir st = st\<lparr>funnelStages := funnelStages (moveLane laneId dir st)\<rparr>"
proof -
  let ?sorted = "getSortedStages st"
  have i': "i < length ?sorted" and at_i: "fst (?sorted ! i) = laneId"
    using findIndex_Some [OF i] by (simp_all add: case_prod_beta)
  have "map fst ?sorted ! j \<noteq> map fst ?sorted ! i"
    using distinct_sorted_keys [OF d] i' j ij nth_eq_iff_index_eq [of "map fst ?sorted" j i]
    by simp
  then have ne: "t \<noteq> laneId"
    using i' j t at_i by simp
  obtain cur where cur: "obj_get (funnelStages st) laneId = Some cur"
    using sorted_key_present [OF i'] at_i by auto
  obtain tgt where tgt: "obj_get (funnelStages st) t = Some tgt"
    using sorted_key_present [OF j] t by auto
  have run': "moveLane laneId dir st
                = st\<lparr>funnelStages :=
                       set_order t (order cur) (set_order laneId (order tgt) (funnelStages st))\<rparr>"
    using run cur tgt by simp
  show ?thesis
    using ne cur tgt by (simp add: run' obj_get_set_order)
qed

lemma moveLane_exchange:
  assumes d: "distinct (obj_keys (funnelStages st))"
  shows "(neighbour_lane laneId dir st = None \<longrightarrow> moveLane laneId dir st = st)
       \<and> (\<forall>t. neighbour_lane laneId dir st = Some t \<longrightarrow>
             t \<noteq> laneId
             \<and> (\<exists>cur tgt. obj_get (funnelStages st) laneId = Some cur
                   \<and> obj_get (funnelStages st) t = Some tgt
                   \<and> obj_get (funnelStages (moveLane laneId dir st)) laneId
                       = Some (cur\<lparr>order := order tgt\<rparr>)
                   \<and> obj_get (funnelStages (moveLane laneId dir st)) t
                       = Some (tgt\<lparr>order := order cur\<rparr>))
             \<and> (\<forall>k. k \<noteq> laneId \<and> k \<noteq> t \<longrightarrow>
                   obj_get (funnelStages (moveLane laneId dir st)) k = obj_get (funnelStages st) k)
             \<and> moveLane laneId dir st = st\<lparr>funnelStages := funnelStages (moveLane laneId dir st)\<rparr>)"
proof (cases "findIndex (\<lambda>(k, stage). k = laneId) (getSortedStages st)")
  case None
  then show ?thesis
    by (simp add: moveLane_def neighbour_lane_def findIndex_map_fst [symmetric] Let_def)
next
  case (Some i)
  let ?sorted = "getSortedStages st"
  have i': "i < length ?sorted"
    using findIndex_Some [OF Some] by simp
  have idx: "findIndex (\<lambda>k. k = laneId) (map fst ?sorted) = Some i"
    using Some by (simp add: findIndex_map_fst)
  show ?thesis
  proof (cases dir)
    case Left
    show ?thesis
    proof (cases "0 < i")
      case False
      then show ?thesis
        using Some idx Left by (simp add: moveLane_def neighbour_lane_def Let_def)
    next
      case True
      then have j: "i - 1 < length ?sorted" and ij: "i - 1 \<noteq> i"
        using i' by simp_all
      have n: "neighbour_lane laneId dir st = Some (fst (?sorted ! (i - 1)))"
        using idx Left True j by (simp add: neighbour_lane_def Let_def)
      have "nat (int i - 1) = i - 1"
        using True by simp
      then have run: "moveLane laneId dir st
                = (case (obj_get (funnelStages st) laneId,
                         obj_get (funnelStages st) (fst (?sorted ! (i - 1)))) of
                     (Some cur, Some tgt) \<Rightarrow>
                        st\<lparr>funnelStages :=
                             set_order (fst (?sorted ! (i - 1))) (order cur)
                               (set_order laneId (order tgt) (funnelStages st))\<rparr>
                   | _ \<Rightarrow> st)"
        using Some Left True i' by (auto simp add: moveLane_def Let_def split: option.splits)
      show ?thesis
        using moveLane_swap [OF d Some j ij refl run] n by simp
    qed
  next
    case Right
    show ?thesis
    proof (cases "Suc i < length ?sorted")
      case False
      then show ?thesis
        using Some idx Right by (simp add: moveLane_def neighbour_lane_def Let_def)
    next
      case True
      have ij: "Suc i \<noteq> i"
        by simp
      have n: "neighbour_lane laneId dir st = Some (fst (?sorted ! Suc i))"
        using idx Right True by (simp add: neighbour_lane_def Let_def)
      have "nat (int i + 1) = Suc i"
        by simp
      then have run: "moveLane laneId dir st
                = (case (obj_get (funnelStages st) laneId,
                         obj_get (funnelStages st) (fst (?sorted ! Suc i))) of
                     (Some cur, Some tgt) \<Rightarrow>
                        st\<lparr>funnelStages :=
                             set_order (fst (?sorted ! Suc i)) (order cur)
                               (set_order laneId (order tgt) (funnelStages st))\<rparr>
                   | _ \<Rightarrow> st)"
        using Some Right True by (auto simp add: moveLane_def Let_def split: option.splits)
      show ?thesis
        using moveLane_swap [OF d Some True ij refl run] n by simp
    qed
  qed
qed

text \<open>
  C1, as stated, fails for the arrow buttons. On the board with the lanes \<open>a\<close> and \<open>b\<close>
  created and \<open>a\<close> deleted, the eight stages have the orders \<open>0..6\<close> and \<open>8\<close>; moving \<open>b\<close> to
  the left exchanges \<open>8\<close> and \<open>6\<close>, and the orders are still not \<open>0..7\<close>.
\<close>

theorem moveLane_not_dense_counterexample:
  "map (\<lambda>(k, stage). (k, order stage)) (getSortedStages (moveLane ''b'' Left gap_state))
     = [(''pending'', Fin 0), (''contacted'', Fin 1), (''confirmed'', Fin 2), (''completed'', Fin 3),
        (''enrolled'', Fin 4), (''no_show'', Fin 5), (''b'', Fin 6), (''cancelled'', Fin 8)]
   \<and> map (\<lambda>(k, stage). order stage) (getSortedStages (moveLane ''b'' Left gap_state))
     \<noteq> map (\<lambda>i. Fin (int i)) [0..<length (funnelStages (moveLane ''b'' Left gap_state))]"
  by code_simp

text \<open>
  C1, amended. On a registry (an object, so with distinct identifiers), dropping a lane
  that the board shows keeps the identifiers of the registry and gives the stages, in
  sorted order, the order values \<open>0, 1, ..., n - 1\<close>, in both versions of the handler that
  have lanes. Moving a lane with the arrow buttons keeps the identifiers too, and only
  exchanges two order values: when the lane has a neighbour on that side, the lane gets the
  order of the neighbour and the neighbour the order of the lane, every other field of the
  two stages, every other stage and the rest of the state stay as they were; when it has
  none, the state is unchanged. So the sorted sequence of order values is the one before
  the move: it is \<open>0..n-1\<close> exactly when it was.
\<close>

theorem reorder_keeps_ids_and_order_values:
  assumes "distinct (obj_keys (funnelStages st))"
  shows "(destination result = Some dest \<and> drop_type result = ''LANE''
            \<and> index (source result) < length (funnelStages st) \<longrightarrow>
          (\<exists>st'. handleDragEnd remote result st = Inr st'
               \<and> handleDragEnd_lanes remote result st = Inr st'
               \<and> obj_keys (funnelStages st') = obj_keys (funnelStages st)
               \<and> map (\<lambda>(k, stage). order stage) (getSortedStages st')
                   = map (\<lambda>i. Fin (int i)) [0..<length (funnelStages st)]))
       \<and> obj_keys (funnelStages (moveLane laneId dir st)) = obj_keys (funnelStages st)
       \<and> map (\<lambda>(k, stage). order stage) (getSortedStages (moveLane laneId dir st))
           = map (\<lambda>(k, stage). order stage) (getSortedStages st)
       \<and> (neighbour_lane laneId dir st = None \<longrightarrow> moveLane laneId dir st = st)
       \<and> (\<forall>t. neighbour_lane laneId dir st = Some t \<longrightarrow>
             t \<noteq> laneId
             \<and> (\<exists>cur tgt. obj_get (funnelStages st) laneId = Some cur
                   \<and> obj_get (funnelStages st) t = Some tgt
                   \<and> obj_get (funnelStages (moveLane laneId dir st)) laneId
                       = Some (cur\<lparr>order := order tgt\<rparr>)
                   \<and> obj_get (funnelStages (moveLane laneId dir st)) t
                       = Some (tgt\<lparr>order := order cur\<rparr>))
             \<and> (\<forall>k. k \<noteq> laneId \<and> k \<noteq> t \<longrightarrow>
                   obj_get (funnelStages (moveLane laneId dir st)) k = obj_get (funnelStages st) k)
             \<and> moveLane laneId dir st = st\<lparr>funnelStages := funnelStages (moveLane laneId dir st)\<rparr>)"
proof -
  have drag: "destination result = Some dest \<and> drop_type result = ''LANE''
            \<and> index (source result) < length (funnelStages st) \<longrightarrow>
          (\<exists>st'. handleDragEnd remote result st = Inr st'
               \<and> handleDragEnd_lanes remote result st = Inr st'
               \<and> obj_keys (funnelStages st') = obj_keys (funnelStages st)
               \<and> map (\<lambda>(k, stage). order stage) (getSortedStages st')
                   = map (\<lambda>i. Fin (int i)) [0..<length (funnelStages st)])"
    using reorder_lanes_dense [OF assms]
    by (simp add: handleDragEnd_def handleDragEnd_lanes_def)
  show ?thesis
    using drag moveLane_orders [OF assms, of laneId dir]
      moveLane_sorted_orders [OF assms, of laneId dir]
      moveLane_exchange [OF assms, of laneId dir]
    by blast
qed

theorem reorder_keeps_ids_and_order_values_witness:
  "distinct (obj_keys (funnelStages gap_state))
   \<and> map (\<lambda>(k, stage). order stage) (getSortedStages gap_state)
       = [Fin 0, Fin 1, Fin 2, Fin 3, Fin 4, Fin 5, Fin 6, Fin 8]
   \<and> (\<exists>st'. handleDragEnd (\<lambda>l s. True) (lane_drop ''pending'' 0 3) gap_state = Inr st'
          \<and> handleDragEnd_lanes (\<lambda>l s. True) (lane_drop ''pending'' 0 3) gap_state = Inr st'
          \<and> obj_keys (funnelStages st') = obj_keys (funnelStages gap_state)
          \<and> map (\<lambda>(k, stage). order stage) (getSortedStages st')
              = [Fin 0, Fin 1, Fin 2, Fin 3, Fin 4, Fin 5, Fin 6, Fin 7])
   \<and> obj_keys (funnelStages (moveLane ''b'' Left gap_state)) = obj_keys (funnelStages gap_state)
   \<and> map (\<lambda>(k, stage). order stage) (getSortedStages (moveLane ''b'' Left gap_state))
       = [Fin 0, Fin 1, Fin 2, Fin 3, Fin 4, Fin 5, Fin 6, Fin 8]
   \<and> neighbour_lane ''b'' Left gap_state = Some ''cancelled''
   \<and> map_option order (obj_get (funnelStages gap_state) ''b'') = Some (Fin 8)
   \<and> map_option order (obj_get (funnelStages gap_state) ''cancelled'') = Some (Fin 6)
   \<and> map_option order (obj_get (funnelStages (moveLane ''b'' Left gap_state)) ''b'') = Some (Fin 6)
   \<and> map_option order (obj_get (funnelStages (moveLane ''b'' Left gap_state)) ''cancelled'')
       = Some (Fin 8)
   \<and> obj_get (funnelStages (moveLane ''b'' Left gap_state)) ''pending''
       = obj_get (funnelStages gap_state) ''pending''
   \<and> neighbour_lane ''pending'' Left gap_state = None
   \<and> moveLane ''pending'' Left gap_state = gap_state"
proof -
  have d: "distinct (obj_keys (funnelStages gap_state))"
    by code_simp
  have o: "map (\<lambda>(k, stage). order stage) (getSortedStages gap_state)
             = [Fin 0, Fin 1, Fin 2, Fin 3, Fin 4, Fin 5, Fin 6, Fin 8]"
    by code_simp
  have n: "length (funnelStages gap_state) = 8"
    by code_simp
  have r: "destination (lane_drop ''pending'' 0 3) = Some \<lparr>droppableId = ''lanes'', index = 3\<rparr>"
    "drop_type (lane_drop ''pending'' 0 3) = ''LANE''"
    "index (source (lane_drop ''pending'' 0 3)) = 0"
    by (simp_all add: lane_drop_def)
  have u: "map (\<lambda>i. Fin (int i)) [0..<8] = [Fin 0, Fin 1, Fin 2, Fin 3, Fin 4, Fin 5, Fin 6, Fin 7]"
    by code_simp
  have nb: "neighbour_lane ''b'' Left gap_state = Some ''cancelled''"
    by code_simp
  have np: "neighbour_lane ''pending'' Left gap_state = None"
    by code_simp
  have before: "map_option order (obj_get (funnelStages gap_state) ''b'') = Some (Fin 8)"
    "map_option order (obj_get (funnelStages gap_state) ''cancelled'') = Some (Fin 6)"
    by code_simp+
  note move_b = reorder_keeps_ids_and_order_values [OF d, of "lane_drop ''pending'' 0 3"
        "\<lparr>droppableId = ''lanes'', index = 3\<rparr>" "\<lambda>l s. True" "''b''" Left]
  note move_p = reorder_keeps_ids_and_order_values [OF d, of "lane_drop ''pending'' 0 3"
        "\<lparr>droppableId = ''lanes'', index = 3\<rparr>" "\<lambda>l s. True" "''pending''" Left]
  have first: "(\<exists>st'. handleDragEnd (\<lambda>l s. True) (lane_drop ''pending'' 0 3) gap_state = Inr st'
          \<and> handleDragEnd_lanes (\<lambda>l s. True) (lane_drop ''pending'' 0 3) gap_state = Inr st'
          \<and> obj_keys (funnelStages st') = obj_keys (funnelStages gap_state)
          \<and> map (\<lambda>(k, stage). order stage) (getSortedStages st')
              = [Fin 0, Fin 1, Fin 2, Fin 3, Fin 4, Fin 5, Fin 6, Fin 7])
     \<and> obj_keys (funnelStages (moveLane ''b'' Left gap_state)) = obj_keys (funnelStages gap_state)
     \<and> map (\<lambda>(k, stage). order stage) (getSortedStages (moveLane ''b'' Left gap_state))
         = [Fin 0, Fin 1, Fin 2, Fin 3, Fin 4, Fin 5, Fin 6, Fin 8]"
    using move_b by (simp add: o n r u)
  from move_b nb
  have ex: "\<exists>cur tgt. obj_get (funnelStages gap_state) ''b'' = Some cur
              \<and> obj_get (funnelStages gap_state) ''cancelled'' = Some tgt
              \<and> obj_get (funnelStages (moveLane ''b'' Left gap_state)) ''b''
                  = Some (cur\<lparr>order := order tgt\<rparr>)
              \<and> obj_get (funnelStages (moveLane ''b'' Left gap_state)) ''cancelled''
                  = Some (tgt\<lparr>order := order cur\<rparr>)"
    and frame: "\<forall>k. k \<noteq> ''b'' \<and> k \<noteq> ''cancelled'' \<longrightarrow>
              obj_get (funnelStages (moveLane ''b'' Left gap_state)) k
                = obj_get (funnelStages gap_state) k"
    by simp_all
  from ex before
  have after: "map_option order (obj_get (funnelStages (moveLane ''b'' Left gap_state)) ''b'')
                 = Some (Fin 6)"
    "map_option order (obj_get (funnelStages (moveLane ''b'' Left gap_state)) ''cancelled'')
                 = Some (Fin 8)"
    by auto
  from frame
  have pending: "obj_get (funnelStages (moveLane ''b'' Left gap_state)) ''pending''
                   = obj_get (funnelStages gap_state) ''pending''"
    by simp
  from move_p np
  have still: "moveLane ''pending'' Left gap_state = gap_state"
    by simp
  show ?thesis
    using d o first nb np before after pending still by simp
qed


end
